theory Spec2Isabelle
  imports Main
begin

section \<open>The tool generator of outline-mcp (scripts/generate-tools.mjs)\<close>

text \<open>
  The generator reads an OpenAPI document, resolves the schemas of every operation
  (\<open>resolveRef\<close>, \<open>derefSchema\<close>, \<open>mergeAllOfSchemas\<close>), compiles them to validator
  expressions of the zod library (\<open>schemaToZodExpression\<close>) and emits one tool definition
  per operation (\<open>generateTools\<close>, \<open>main\<close>). Each function of the script is embedded below
  under its own name. A thrown \<open>Error\<close> is the left injection of a sum type.
\<close>

subsection \<open>Data\<close>

text \<open>
  A parsed YAML or JSON value. Numbers are kept as integers: the generator only copies
  them into literals and never computes with them.
\<close>

datatype jvalue =
    JNull
  | JBool bool
  | JNum int
  | JStr string
  | JArr "jvalue list"
  | JObj "(string \<times> jvalue) list"

text \<open>
  A schema object, read through the members the generator looks at, each with the
  type an OpenAPI document gives it: \<open>$ref\<close>, \<open>type\<close> and \<open>description\<close> are strings,
  \<open>allOf\<close>, \<open>oneOf\<close> and \<open>anyOf\<close> lists of schemas, \<open>properties\<close> a map from names to
  schemas, \<open>required\<close> a list of names, \<open>enum\<close> a list of values, \<open>nullable\<close> a
  boolean. A member that is absent (\<open>undefined\<close>) is \<open>None\<close>. Objects keep their members
  in insertion order, as \<open>Object.entries\<close> enumerates them, so a property map is an
  association list (names that are array indices, which JavaScript enumerates first,
  are not singled out). \<open>additionalProperties\<close> is absent, a boolean or a schema.
\<close>

datatype schema = Schema
  (ref: "string option")
  (allOf: "schema list option")
  (oneOf: "schema list option")
  (anyOf: "schema list option")
  (type: "string option")
  (properties: "(string \<times> schema) list option")
  (required: "string list option")
  (additionalProperties: additional)
  (items: "schema option")
  (enum: "jvalue list option")
  (nullable: bool)
  (description: "string option")
  (example: "jvalue option")
and additional = AP_absent | AP_bool bool | AP_schema schema

text \<open>The empty object \<open>{}\<close> that \<open>derefSchema\<close> returns for an unresolved schema.\<close>

definition empty_schema :: schema where
  "empty_schema =
     Schema None None None None None None None AP_absent None None False None None"

text \<open>Shorthands for the schema literals of the examples.\<close>

definition ref_schema :: "string \<Rightarrow> schema" where
  "ref_schema r =
     Schema (Some r) None None None None None None AP_absent None None False None None"

definition allOf_schema :: "schema list \<Rightarrow> schema" where
  "allOf_schema bs =
     Schema None (Some bs) None None None None None AP_absent None None False None None"

definition typed_schema :: "string \<Rightarrow> schema" where
  "typed_schema t =
     Schema None None None None (Some t) None None AP_absent None None False None None"

definition object_schema :: "(string \<times> schema) list \<Rightarrow> string list \<Rightarrow> schema" where
  "object_schema ps rs =
     Schema None None None None (Some ''object'') (Some ps) (Some rs) AP_absent None None
       False None None"

definition string_enum_schema :: "jvalue list \<Rightarrow> schema" where
  "string_enum_schema vs =
     Schema None None None None (Some ''string'') None None AP_absent None (Some vs)
       False None None"

subsection \<open>toSnakeCase\<close>

text \<open>
  Strings are lists of bytes. A character outside ASCII is one UTF-16 unit or two for
  the script and several bytes here; \<open>toSnakeCase\<close> replaces every one of them by an
  underscore and collapses the run, so both readings give the same name.
\<close>

definition lowers :: string where "lowers = ''abcdefghijklmnopqrstuvwxyz''"
definition uppers :: string where "uppers = ''ABCDEFGHIJKLMNOPQRSTUVWXYZ''"
definition digits :: string where "digits = ''0123456789''"

text \<open>\<open>String.prototype.toLowerCase\<close> on one character of the ASCII range.\<close>

definition toLowerCase_char :: "char \<Rightarrow> char" where
  "toLowerCase_char c = (case map_of (zip uppers lowers) c of Some l \<Rightarrow> l | None \<Rightarrow> c)"

definition toLowerCase :: "string \<Rightarrow> string" where
  "toLowerCase s = map toLowerCase_char s"

text \<open>\<open>.replace(/^\//, "")\<close>: one leading slash is removed.\<close>

fun strip_slash :: "string \<Rightarrow> string" where
  "strip_slash [] = []"
| "strip_slash (c # cs) = (if c = CHR ''/'' then cs else c # cs)"

text \<open>\<open>.replace(/\./g, "_")\<close>\<close>

definition replace_dots :: "string \<Rightarrow> string" where
  "replace_dots s = map (\<lambda>c. if c = CHR ''.'' then CHR ''_'' else c) s"

text \<open>
  \<open>.replace(/([a-z0-9])([A-Z])/g, "$1_$2")\<close>: the scan goes left to right; a match
  consumes both characters and the scan goes on behind them.
\<close>

fun split_camel :: "string \<Rightarrow> string" where
  "split_camel (a # b # cs) =
     (if (a \<in> set lowers \<or> a \<in> set digits) \<and> b \<in> set uppers
      then a # CHR ''_'' # b # split_camel cs
      else a # split_camel (b # cs))"
| "split_camel cs = cs"

text \<open>\<open>.replace(/[^a-zA-Z0-9_]/g, "_")\<close>\<close>

definition word_char :: "char \<Rightarrow> bool" where
  "word_char c \<longleftrightarrow> c \<in> set lowers \<or> c \<in> set uppers \<or> c \<in> set digits \<or> c = CHR ''_''"

definition replace_nonword :: "string \<Rightarrow> string" where
  "replace_nonword s = map (\<lambda>c. if word_char c then c else CHR ''_'') s"

text \<open>
  \<open>.replace(/__+/g, "_")\<close>: a match starts at two underscores, takes the whole run and
  leaves one underscore.
\<close>

function collapse_underscores :: "string \<Rightarrow> string" where
  "collapse_underscores [] = []"
| "collapse_underscores [c] = [c]"
| "collapse_underscores (a # b # cs) =
     (if a = CHR ''_'' \<and> b = CHR ''_''
      then CHR ''_'' # collapse_underscores (dropWhile (\<lambda>c. c = CHR ''_'') cs)
      else a # collapse_underscores (b # cs))"
  by pat_completeness auto
termination
  by (relation "measure length") (auto simp: length_dropWhile_le less_Suc_eq_le le_SucI)

definition toSnakeCase :: "string \<Rightarrow> string" where
  "toSnakeCase v =
     toLowerCase (collapse_underscores (replace_nonword (split_camel (replace_dots
       (strip_slash v)))))"

subsection \<open>The annotation patterns\<close>

text \<open>
  \<open>READ_ONLY_PATTERN\<close> and \<open>DESTRUCTIVE_PATTERN\<close> are alternations of literal tokens
  with the flag \<open>i\<close>. \<open>RegExp.prototype.test\<close> tries every start position from the left
  and, at each, the alternatives in order.
\<close>

definition READ_ONLY_PATTERN :: "string list" where
  "READ_ONLY_PATTERN =
     [''list'', ''info'', ''search'', ''config'', ''redirect'', ''export'', ''history'',
      ''diff'', ''view'', ''views'', ''count'', ''counts'', ''stats'', ''ping'', ''check'']"

definition DESTRUCTIVE_PATTERN :: "string list" where
  "DESTRUCTIVE_PATTERN = [''delete'', ''remove'', ''destroy'']"

fun matches_here :: "string \<Rightarrow> string \<Rightarrow> bool" where
  "matches_here [] s = True"
| "matches_here (t # ts) [] = False"
| "matches_here (t # ts) (c # cs) =
     (toLowerCase_char t = toLowerCase_char c \<and> matches_here ts cs)"

fun regex_test :: "string list \<Rightarrow> string \<Rightarrow> bool" where
  "regex_test tokens [] = list_ex (\<lambda>t. matches_here t []) tokens"
| "regex_test tokens (c # cs) =
     (list_ex (\<lambda>t. matches_here t (c # cs)) tokens \<or> regex_test tokens cs)"

record annotations =
  readOnlyHint :: bool
  destructiveHint :: bool
  idempotentHint :: bool
  openWorldHint :: bool

text \<open>The \<open>annotations\<close> member of a tool, as \<open>generateTools\<close> fills it.\<close>

definition annotations_of :: "string \<Rightarrow> annotations" where
  "annotations_of opId =
     (let readOnly = regex_test READ_ONLY_PATTERN opId;
          destructive = regex_test DESTRUCTIVE_PATTERN opId
      in \<lparr> readOnlyHint = readOnly,
           destructiveHint = destructive,
           idempotentHint = readOnly,
           openWorldHint = True \<rparr>)"

subsection \<open>The document and its reference pointers\<close>

text \<open>
  An array index is a property name that is the canonical decimal form of a number
  below \<open>2^32 - 1\<close>: digits only, no leading zero, and fewer than ten digits or ten
  digits that come before \<open>4294967295\<close>. \<open>array_index\<close> is the number, and \<open>None\<close> for any
  other name.
\<close>

definition index_value :: "string \<Rightarrow> nat" where
  "index_value k = foldl (\<lambda>n c. 10 * n + (of_char c - 48)) 0 k"

fun digits_less :: "string \<Rightarrow> string \<Rightarrow> bool" where
  "digits_less (a # as) (b # bs) =
     ((of_char a :: nat) < of_char b \<or> (a = b \<and> digits_less as bs))"
| "digits_less [] bs = False"
| "digits_less (a # as) [] = False"

definition array_index :: "string \<Rightarrow> nat option" where
  "array_index k =
     (if k \<noteq> [] \<and> list_all (\<lambda>c. c \<in> set digits) k \<and> (hd k \<noteq> CHR ''0'' \<or> k = ''0'')
         \<and> (length k < 10 \<or> (length k = 10 \<and> digits_less k ''4294967295''))
      then Some (index_value k)
      else None)"

text \<open>
  The parsed document: a mapping is an object with its own members in the order of
  enumeration, and \<open>view\<close> is the mapping read as a schema; a sequence is an array; a
  scalar is a string, a number, a boolean or \<open>null\<close>. The document itself is not \<open>null\<close>.
\<close>

datatype doc =
    Mapping (view: schema) (members: "(string \<times> doc) list")
  | Sequence "doc list"
  | Scalar

text \<open>
  The values that the loop of \<open>resolveRef\<close> can hold in \<open>current\<close>: a node of the
  document, or a value that the node inherits: \<open>Object.prototype\<close>, \<open>Array.prototype\<close>, or
  a value that the loop cannot walk into (\<open>Unwalkable\<close>: a function of a prototype, whose
  \<open>typeof\<close> is \<open>"function"\<close>, the number \<open>length\<close> of an array, and \<open>null\<close>, the prototype
  of \<open>Object.prototype\<close>).
\<close>

datatype current = Node doc | Object_prototype | Array_prototype | Unwalkable

text \<open>
  The string-named members of \<open>Object.prototype\<close> and of \<open>Array.prototype\<close> that are
  functions (ECMAScript 2023 and later); \<open>constructor\<close> is \<open>Object\<close> and \<open>Array\<close>.
\<close>

definition Object_prototype_functions :: "string list" where
  "Object_prototype_functions =
     [''constructor'', ''__defineGetter__'', ''__defineSetter__'', ''hasOwnProperty'',
      ''__lookupGetter__'', ''__lookupSetter__'', ''isPrototypeOf'',
      ''propertyIsEnumerable'', ''toString'', ''valueOf'', ''toLocaleString'']"

definition Array_prototype_functions :: "string list" where
  "Array_prototype_functions =
     [''constructor'', ''at'', ''concat'', ''copyWithin'', ''fill'', ''find'', ''findIndex'',
      ''findLast'', ''findLastIndex'', ''lastIndexOf'', ''pop'', ''push'', ''reverse'',
      ''shift'', ''unshift'', ''slice'', ''sort'', ''splice'', ''includes'', ''indexOf'',
      ''join'', ''keys'', ''entries'', ''values'', ''forEach'', ''filter'', ''flat'',
      ''flatMap'', ''map'', ''every'', ''some'', ''reduce'', ''reduceRight'',
      ''toReversed'', ''toSorted'', ''toSpliced'', ''with'', ''toLocaleString'',
      ''toString'']"

text \<open>
  \<open>part in current\<close> and \<open>current[part]\<close>, for a \<open>current\<close> that is an object; \<open>None\<close> is
  \<open>part in current\<close> being false. An own member comes before an inherited one. The
  member \<open>__proto__\<close> is the accessor of \<open>Object.prototype\<close>, which reads the prototype of
  the object it is read from (for \<open>Object.prototype\<close> that is \<open>null\<close>); the parser writes
  a key \<open>__proto__\<close> of the document as an own member.
\<close>

definition Object_prototype_member :: "string \<Rightarrow> current option" where
  "Object_prototype_member part =
     (if part = ''__proto__'' \<or> part \<in> set Object_prototype_functions then Some Unwalkable
      else None)"

definition Array_prototype_member :: "string \<Rightarrow> current option" where
  "Array_prototype_member part =
     (if part = ''length'' \<or> part \<in> set Array_prototype_functions then Some Unwalkable
      else if part = ''__proto__'' then Some Object_prototype
      else Object_prototype_member part)"

fun member_of :: "current \<Rightarrow> string \<Rightarrow> current option" where
  "member_of (Node (Mapping v ms)) part =
     (case map_of ms part of
        Some d \<Rightarrow> Some (Node d)
      | None \<Rightarrow>
          if part = ''__proto__'' then Some Object_prototype
          else Object_prototype_member part)"
| "member_of (Node (Sequence xs)) part =
     (case (case array_index part of
              Some i \<Rightarrow> if i < length xs then Some (xs ! i) else None
            | None \<Rightarrow> None) of
        Some d \<Rightarrow> Some (Node d)
      | None \<Rightarrow>
          if part = ''length'' then Some Unwalkable
          else if part = ''__proto__'' then Some Array_prototype
          else Array_prototype_member part)"
| "member_of (Node Scalar) part = None"
| "member_of Object_prototype part = Object_prototype_member part"
| "member_of Array_prototype part = Array_prototype_member part"
| "member_of Unwalkable part = None"

text \<open>
  The value that \<open>resolveRef\<close> returns, read as a schema. Only a mapping has members
  that the generator reads: \<open>derefSchema\<close> returns \<open>{}\<close> for a falsy value, and a sequence,
  a truthy scalar, a function and the two prototypes have none of the members \<open>$ref\<close>,
  \<open>allOf\<close>, \<open>oneOf\<close>, \<open>anyOf\<close>, \<open>type\<close>, \<open>properties\<close>, \<open>required\<close>, \<open>additionalProperties\<close>,
  \<open>items\<close>, \<open>enum\<close>, \<open>nullable\<close>, \<open>description\<close>, \<open>example\<close>, neither own nor inherited.
\<close>

fun as_schema :: "current \<Rightarrow> schema" where
  "as_schema (Node (Mapping v ms)) = v"
| "as_schema (Node (Sequence xs)) = empty_schema"
| "as_schema (Node Scalar) = empty_schema"
| "as_schema Object_prototype = empty_schema"
| "as_schema Array_prototype = empty_schema"
| "as_schema Unwalkable = empty_schema"

text \<open>
  The two errors that \<open>resolveRef\<close> throws; the script throws no other. The type errors
  of the runtime on a document whose members are not of the types below (an
  \<open>operationId\<close> that is no string, an \<open>allOf\<close> that is no list) are not modelled.
\<close>

datatype error = Unsupported_ref string | Unresolvable_ref string

text \<open>
  An operation, read through the members \<open>generateTools\<close> looks at:
  \<open>requestSchema\<close> is \<open>requestBody.content["application/json"].schema\<close>, and
  \<open>response200\<close>, \<open>response201\<close> are \<open>responses[code].content["application/json"].schema\<close>.
\<close>

record operation =
  operationId :: "string option"
  summary :: "string option"
  op_description :: "string option"
  requestSchema :: "schema option"
  response200 :: "schema option"
  response201 :: "schema option"

record spec =
  document :: doc
  paths :: "(string \<times> (string \<times> operation) list) list"

definition MAX_SCHEMA_DEPTH :: nat where
  "MAX_SCHEMA_DEPTH = 8"

text \<open>\<open>String.prototype.split\<close> on a one-character separator.\<close>

fun split_on :: "char \<Rightarrow> string \<Rightarrow> string list" where
  "split_on sep [] = [[]]"
| "split_on sep (c # cs) =
     (if c = sep then [] # split_on sep cs
      else (case split_on sep cs of [] \<Rightarrow> [[c]] | p # ps \<Rightarrow> (c # p) # ps))"

text \<open>
  The loop of \<open>resolveRef\<close>; \<open>None\<close> is the throw inside it, when \<open>current\<close> is falsy or
  not of type \<open>"object"\<close>, or has no member \<open>part\<close>.
\<close>

fun navigate :: "current \<Rightarrow> string list \<Rightarrow> current option" where
  "navigate current [] = Some current"
| "navigate current (part # parts) =
     (case member_of current part of
        Some next \<Rightarrow> navigate next parts
      | None \<Rightarrow> None)"

definition resolveRef :: "spec \<Rightarrow> string \<Rightarrow> error + schema" where
  "resolveRef sp r =
     (if take 2 r \<noteq> ''#/'' then Inl (Unsupported_ref r)
      else (case navigate (Node (document sp)) (split_on (CHR ''/'') (drop 2 r)) of
              None \<Rightarrow> Inl (Unresolvable_ref r)
            | Some current \<Rightarrow> Inr (as_schema current)))"

subsection \<open>derefSchema and mergeAllOfSchemas\<close>

text \<open>
  The own properties of an object are enumerated with the array indices first, in
  ascending order, and the other names after them in the order of their creation.
  \<open>put_own\<close> writes an own property: an existing name keeps its place, a new array
  index goes in front of the first name that is no index or a larger one, any other new
  name goes last. (The test that the name is not further down the list matters only
  for a list that is not in the order of an object.)
\<close>

fun put_own :: "string \<Rightarrow> 'v \<Rightarrow> (string \<times> 'v) list \<Rightarrow> (string \<times> 'v) list" where
  "put_own k v [] = [(k, v)]"
| "put_own k v (p # ps) =
     (if fst p = k then (k, v) # ps
      else if (case array_index k of
                 None \<Rightarrow> False
               | Some i \<Rightarrow>
                   k \<notin> fst ` set ps
                   \<and> (case array_index (fst p) of None \<Rightarrow> True | Some j \<Rightarrow> i < j))
      then (k, v) # p # ps
      else p # put_own k v ps)"

text \<open>
  \<open>target[key] = value\<close> on an object that inherits from \<open>Object.prototype\<close>, as
  \<open>mergedProperties\<close> does: the name \<open>__proto__\<close> is the accessor of \<open>Object.prototype\<close>,
  the assignment goes to its setter, which makes the value (a schema) the prototype of
  the target, and no own property is written. The generator reads the merged
  properties by their own names (\<open>Object.entries\<close>, \<open>Object.assign\<close>) and by \<open>in\<close> for the
  names \<open>limit\<close> and \<open>offset\<close>, which are not members of a schema, so that the changed
  prototype does not show.
\<close>

definition set_member :: "string \<Rightarrow> 'v \<Rightarrow> (string \<times> 'v) list \<Rightarrow> (string \<times> 'v) list" where
  "set_member k v ps = (if k = ''__proto__'' then ps else put_own k v ps)"

text \<open>\<open>Object.assign(target, source)\<close>\<close>

definition Object_assign ::
  "(string \<times> 'v) list \<Rightarrow> (string \<times> 'v) list \<Rightarrow> (string \<times> 'v) list" where
  "Object_assign target source = fold (\<lambda>(k, v). set_member k v) source target"

text \<open>
  \<open>seenRefs\<close> is one mutable \<open>Set\<close> that \<open>derefSchema\<close> adds to, so both functions take
  the set and return it with the result. \<open>merge_loop\<close> is the \<open>for\<close> loop of
  \<open>mergeAllOfSchemas\<close> with its two accumulators.
\<close>

function derefSchema ::
    "spec \<Rightarrow> schema \<Rightarrow> string set \<Rightarrow> nat \<Rightarrow> error + (schema \<times> string set)"
  and merge_loop ::
    "spec \<Rightarrow> schema list \<Rightarrow> string set \<Rightarrow> nat \<Rightarrow> (string \<times> schema) list \<Rightarrow> string list
       \<Rightarrow> error + (schema \<times> string set)"
where
  "derefSchema sp s seenRefs depth =
     (if depth > MAX_SCHEMA_DEPTH then Inr (empty_schema, seenRefs)
      else if ref s \<noteq> None \<and> ref s \<noteq> Some []
      then (if the (ref s) \<in> seenRefs then Inr (empty_schema, seenRefs)
            else (case resolveRef sp (the (ref s)) of
                    Inl e \<Rightarrow> Inl e
                  | Inr target \<Rightarrow>
                      derefSchema sp target (insert (the (ref s)) seenRefs) (depth + 1)))
      else (case allOf s of
              Some schemas \<Rightarrow> merge_loop sp schemas seenRefs depth [] []
            | None \<Rightarrow> Inr (s, seenRefs)))"
| "merge_loop sp [] seenRefs depth mergedProperties mergedRequired =
     Inr (Schema None None None None (Some ''object'') (Some mergedProperties)
            (if length mergedRequired > 0 then Some mergedRequired else None)
            AP_absent None None False None None,
          seenRefs)"
| "merge_loop sp (s # schemas) seenRefs depth mergedProperties mergedRequired =
     (case derefSchema sp s seenRefs (depth + 1) of
        Inl e \<Rightarrow> Inl e
      | Inr (resolved, seenRefs') \<Rightarrow>
          merge_loop sp schemas seenRefs' depth
            (case properties resolved of
               Some ps \<Rightarrow> Object_assign mergedProperties ps
             | None \<Rightarrow> mergedProperties)
            (case required resolved of
               Some rs \<Rightarrow> mergedRequired @ rs
             | None \<Rightarrow> mergedRequired))"
  by pat_completeness auto
termination
  by (relation "inv_image (less_than <*lex*> less_than)
        (\<lambda>x. case x of
           Inl (sp, s, seenRefs, depth) \<Rightarrow> (10 - depth, 0)
         | Inr (sp, schemas, seenRefs, depth, ps, rs) \<Rightarrow> (9 - depth, Suc (length schemas)))")
     (auto simp: MAX_SCHEMA_DEPTH_def)

declare derefSchema.simps [simp del]

definition mergeAllOfSchemas ::
  "spec \<Rightarrow> schema list \<Rightarrow> string set \<Rightarrow> nat \<Rightarrow> error + (schema \<times> string set)" where
  "mergeAllOfSchemas sp schemas seenRefs depth = merge_loop sp schemas seenRefs depth [] []"

subsection \<open>Validator expressions\<close>

text \<open>
  The generator emits validator expressions as source text. The text is kept here as
  its syntax tree, one constructor per template of the script:
  \<^item> \<open>ZAny\<close> is \<open>z.any()\<close>, \<open>ZString\<close> is \<open>z.string()\<close>, \<open>ZNumber\<close> is \<open>z.number()\<close>,
    \<open>ZBoolean\<close> is \<open>z.boolean()\<close>;
  \<^item> \<open>ZObject entries Strict\<close> is \<open>z.object({ entries }).strict()\<close>,
    \<open>ZObject entries Passthrough\<close> is \<open>z.object({ entries }).passthrough()\<close>,
    \<open>ZObject entries (Catchall c)\<close> is \<open>z.object({ entries }).catchall(c)\<close>;
  \<^item> \<open>ZArray e\<close> is \<open>z.array(e)\<close>, \<open>ZEnum vs\<close> is \<open>z.enum([vs])\<close>,
    \<open>ZLiteral v\<close> is \<open>z.literal(v)\<close>, \<open>ZUnion es\<close> is \<open>z.union([es])\<close>;
  \<^item> \<open>ZOptional e\<close> is \<open>e.optional()\<close>, \<open>ZNullable e\<close> is \<open>e.nullable()\<close>;
  \<^item> \<open>ZDescribe e parts\<close> is \<open>e.describe(text)\<close>, where the text is the parts joined by
    a space and an example is rendered as \<open>Example: \<close> and its JSON text.
\<close>

datatype doc_part = Description string | Example jvalue

datatype zexpr =
    ZAny
  | ZObject "(string \<times> zexpr) list" unknown_keys
  | ZArray zexpr
  | ZString
  | ZEnum "string list"
  | ZLiteral jvalue
  | ZUnion "zexpr list"
  | ZNumber
  | ZBoolean
  | ZOptional zexpr
  | ZNullable zexpr
  | ZDescribe zexpr "doc_part list"
and unknown_keys = Strict | Passthrough | Catchall zexpr

datatype mode = Input | Output

subsection \<open>schemaToZodExpression\<close>

definition literalExpression :: "jvalue \<Rightarrow> zexpr" where
  "literalExpression v = ZLiteral v"

fun is_string :: "jvalue \<Rightarrow> bool" where
  "is_string (JStr s) = True"
| "is_string v = False"

fun string_of :: "jvalue \<Rightarrow> string" where
  "string_of (JStr s) = s"
| "string_of v = []"

text \<open>The expression of a string-typed schema (the branch \<open>schemaType === "string"\<close>).\<close>

definition string_expression :: "schema \<Rightarrow> mode \<Rightarrow> zexpr" where
  "string_expression resolved m =
     (case enum resolved of
        None \<Rightarrow> ZString
      | Some vs \<Rightarrow>
          if length vs > 0
          then (let stringValues = filter is_string vs in
                if m = Output then ZString
                else if length stringValues = length vs
                then ZEnum (map string_of stringValues)
                else (let literals = map literalExpression vs in
                      if length literals = 1 then hd literals else ZUnion literals))
          else ZString)"

text \<open>The expression of a schema with none of the known types (the last branch).\<close>

definition untyped_expression :: "schema \<Rightarrow> mode \<Rightarrow> zexpr" where
  "untyped_expression resolved m =
     (case enum resolved of
        None \<Rightarrow> ZAny
      | Some vs \<Rightarrow>
          if length vs > 0
          then (if m = Output then ZAny else ZUnion (map literalExpression vs))
          else ZAny)"

text \<open>The tail of the function: \<open>.nullable()\<close>, then \<open>.describe(...)\<close>.\<close>

definition descriptionParts :: "schema \<Rightarrow> doc_part list" where
  "descriptionParts resolved =
     (case description resolved of
        None \<Rightarrow> []
      | Some d \<Rightarrow> if d = [] then [] else [Description d])
     @ (case example resolved of None \<Rightarrow> [] | Some v \<Rightarrow> [Example v])"

definition finish :: "schema \<Rightarrow> zexpr \<Rightarrow> zexpr" where
  "finish resolved expression =
     (let expression1 = (if nullable resolved then ZNullable expression else expression) in
      if length (descriptionParts resolved) > 0
      then ZDescribe expression1 (descriptionParts resolved)
      else expression1)"

text \<open>
  \<open>compile_entries\<close> is the \<open>map\<close> over \<open>Object.entries(properties)\<close>. Every recursive
  call gets \<open>new Set(seenRefs)\<close>, a copy of the set as \<open>derefSchema\<close> left it.
\<close>

function schemaToZodExpression ::
    "spec \<Rightarrow> schema \<Rightarrow> mode \<Rightarrow> nat \<Rightarrow> string set \<Rightarrow> error + zexpr"
  and compile_entries ::
    "spec \<Rightarrow> (string \<times> schema) list \<Rightarrow> string list \<Rightarrow> mode \<Rightarrow> nat \<Rightarrow> string set
       \<Rightarrow> error + (string \<times> zexpr) list"
where
  "schemaToZodExpression sp s m depth seenRefs0 =
     (case derefSchema sp s seenRefs0 depth of
        Inl e \<Rightarrow> Inl e
      | Inr (resolved, seenRefs) \<Rightarrow>
          if depth > MAX_SCHEMA_DEPTH then Inr ZAny
          else if oneOf resolved \<noteq> None \<or> anyOf resolved \<noteq> None then Inr ZAny
          else if type resolved = Some ''object'' \<or> properties resolved \<noteq> None
          then (case compile_entries sp
                       (case properties resolved of Some ps \<Rightarrow> ps | None \<Rightarrow> [])
                       (case required resolved of Some rs \<Rightarrow> rs | None \<Rightarrow> [])
                       m depth seenRefs of
                  Inl e \<Rightarrow> Inl e
                | Inr entries \<Rightarrow>
                    if m = Output then Inr (finish resolved (ZObject entries Passthrough))
                    else (case additionalProperties resolved of
                            AP_schema a \<Rightarrow>
                              (case schemaToZodExpression sp a m (depth + 1) seenRefs of
                                 Inl e \<Rightarrow> Inl e
                               | Inr catchallExpression \<Rightarrow>
                                   Inr (finish resolved
                                          (ZObject entries (Catchall catchallExpression))))
                          | AP_bool b \<Rightarrow>
                              if b then Inr (finish resolved (ZObject entries Passthrough))
                              else Inr (finish resolved (ZObject entries Strict))
                          | AP_absent \<Rightarrow> Inr (finish resolved (ZObject entries Strict))))
          else if type resolved = Some ''array''
          then (case items resolved of
                  Some it \<Rightarrow>
                    (case schemaToZodExpression sp it m (depth + 1) seenRefs of
                       Inl e \<Rightarrow> Inl e
                     | Inr itemExpression \<Rightarrow> Inr (finish resolved (ZArray itemExpression)))
                | None \<Rightarrow> Inr (finish resolved (ZArray ZAny)))
          else if type resolved = Some ''string''
          then Inr (finish resolved (string_expression resolved m))
          else if type resolved = Some ''integer'' \<or> type resolved = Some ''number''
          then Inr (finish resolved ZNumber)
          else if type resolved = Some ''boolean''
          then Inr (finish resolved ZBoolean)
          else Inr (finish resolved (untyped_expression resolved m)))"
| "compile_entries sp [] requiredNames m depth seenRefs = Inr []"
| "compile_entries sp ((key, propertySchema) # rest) requiredNames m depth seenRefs =
     (case schemaToZodExpression sp propertySchema m (depth + 1) seenRefs of
        Inl e \<Rightarrow> Inl e
      | Inr propertyExpression \<Rightarrow>
          (case compile_entries sp rest requiredNames m depth seenRefs of
             Inl e \<Rightarrow> Inl e
           | Inr entries \<Rightarrow>
               Inr ((key,
                     if key \<notin> set requiredNames
                     then (if m = Output then ZNullable (ZOptional propertyExpression)
                           else ZOptional propertyExpression)
                     else propertyExpression) # entries)))"
  by pat_completeness auto
termination
  by (relation "inv_image (less_than <*lex*> less_than)
        (\<lambda>x. case x of
           Inl (sp, s, m, depth, seenRefs) \<Rightarrow> (10 - depth, 0)
         | Inr (sp, entries, rs, m, depth, seenRefs) \<Rightarrow> (9 - depth, Suc (length entries)))")
     (auto simp: MAX_SCHEMA_DEPTH_def)

declare schemaToZodExpression.simps [simp del]

subsection \<open>The tools\<close>

record tool =
  name :: string
  title :: string
  tool_description :: string
  methodName :: string
  inputSchema :: zexpr
  outputSchema :: "zexpr option"
  tool_annotations :: annotations

definition is_object_schema :: "schema \<Rightarrow> bool" where
  "is_object_schema resolved \<longleftrightarrow> type resolved = Some ''object'' \<or> properties resolved \<noteq> None"

definition buildInputSchemaExpression :: "spec \<Rightarrow> operation \<Rightarrow> error + zexpr" where
  "buildInputSchemaExpression sp operation =
     (case requestSchema operation of
        None \<Rightarrow> Inr (ZObject [] Strict)
      | Some rq \<Rightarrow>
          (case derefSchema sp rq {} 0 of
             Inl e \<Rightarrow> Inl e
           | Inr (resolved, seenRefs) \<Rightarrow>
               if is_object_schema resolved
               then schemaToZodExpression sp resolved Input 0 {}
               else (case schemaToZodExpression sp resolved Input 0 {} of
                       Inl e \<Rightarrow> Inl e
                     | Inr payloadExpression \<Rightarrow>
                         Inr (ZObject [(''payload'', payloadExpression)] Strict))))"

definition responseSchema :: "operation \<Rightarrow> schema option" where
  "responseSchema operation =
     (case response200 operation of Some s \<Rightarrow> Some s | None \<Rightarrow> response201 operation)"

definition buildOutputSchemaExpression :: "spec \<Rightarrow> operation \<Rightarrow> error + zexpr option" where
  "buildOutputSchemaExpression sp operation =
     (case responseSchema operation of
        None \<Rightarrow> Inr None
      | Some rs \<Rightarrow>
          (case derefSchema sp rs {} 0 of
             Inl e \<Rightarrow> Inl e
           | Inr (resolved, seenRefs) \<Rightarrow>
               if \<not> is_object_schema resolved then Inr None
               else (case schemaToZodExpression sp rs Output 0 {} of
                       Inl e \<Rightarrow> Inl e
                     | Inr expression \<Rightarrow> Inr (Some expression))))"

definition hasPagination :: "spec \<Rightarrow> operation \<Rightarrow> error + bool" where
  "hasPagination sp operation =
     (case requestSchema operation of
        None \<Rightarrow> Inr False
      | Some rq \<Rightarrow>
          (case derefSchema sp rq {} 0 of
             Inl e \<Rightarrow> Inl e
           | Inr (resolved, seenRefs) \<Rightarrow>
               (let props = (case properties resolved of Some ps \<Rightarrow> ps | None \<Rightarrow> []) in
                Inr (''limit'' \<in> fst ` set props \<or> ''offset'' \<in> fst ` set props))))"

definition pagination_sentence :: string where
  "pagination_sentence = ''Pagination: use limit and offset to page results.''"

text \<open>The name of a tool, from the path key and the operation (lines 269 to 271).\<close>

definition toolName_of :: "string \<Rightarrow> string option \<Rightarrow> string" where
  "toolName_of pathKey opId =
     (let method_name = strip_slash pathKey;
          opId' = (case opId of Some i \<Rightarrow> i | None \<Rightarrow> method_name)
      in ''outline_'' @ toSnakeCase opId')"

text \<open>The body of the inner loop of \<open>generateTools\<close> for one operation.\<close>

definition make_tool :: "spec \<Rightarrow> string \<Rightarrow> operation \<Rightarrow> error + tool" where
  "make_tool sp pathKey operation =
     (let method_name = strip_slash pathKey;
          opId = (case operationId operation of Some i \<Rightarrow> i | None \<Rightarrow> method_name);
          toolName = toolName_of pathKey (operationId operation);
          title0 = (case summary operation of Some t \<Rightarrow> t | None \<Rightarrow> toolName);
          description0 =
            (case op_description operation of
               Some d \<Rightarrow> d
             | None \<Rightarrow> (case summary operation of Some t \<Rightarrow> t | None \<Rightarrow> []))
      in case buildInputSchemaExpression sp operation of
           Inl e \<Rightarrow> Inl e
         | Inr input \<Rightarrow>
             (case buildOutputSchemaExpression sp operation of
                Inl e \<Rightarrow> Inl e
              | Inr output \<Rightarrow>
                  (case hasPagination sp operation of
                     Inl e \<Rightarrow> Inl e
                   | Inr paginated \<Rightarrow>
                       Inr \<lparr> name = toolName,
                             title = title0,
                             tool_description =
                               (if paginated
                                then (if description0 \<noteq> []
                                      then description0 @ [CHR 0x0A, CHR 0x0A]
                                             @ pagination_sentence
                                      else pagination_sentence)
                                else description0),
                             methodName = method_name,
                             inputSchema = input,
                             outputSchema = output,
                             tool_annotations = annotations_of opId \<rparr>)))"

definition methods :: "string list" where
  "methods = [''post'', ''get'', ''put'', ''patch'', ''delete'']"

fun method_loop ::
  "spec \<Rightarrow> string \<Rightarrow> (string \<times> operation) list \<Rightarrow> string list \<Rightarrow> error + tool list" where
  "method_loop sp pathKey pathItem [] = Inr []"
| "method_loop sp pathKey pathItem (method # rest) =
     (case map_of pathItem method of
        None \<Rightarrow> method_loop sp pathKey pathItem rest
      | Some operation \<Rightarrow>
          (case make_tool sp pathKey operation of
             Inl e \<Rightarrow> Inl e
           | Inr t \<Rightarrow>
               (case method_loop sp pathKey pathItem rest of
                  Inl e \<Rightarrow> Inl e
                | Inr ts \<Rightarrow> Inr (t # ts))))"

fun path_loop ::
  "spec \<Rightarrow> (string \<times> (string \<times> operation) list) list \<Rightarrow> error + tool list" where
  "path_loop sp [] = Inr []"
| "path_loop sp ((pathKey, pathItem) # rest) =
     (case method_loop sp pathKey pathItem methods of
        Inl e \<Rightarrow> Inl e
      | Inr ts \<Rightarrow>
          (case path_loop sp rest of
             Inl e \<Rightarrow> Inl e
           | Inr ts' \<Rightarrow> Inr (ts @ ts')))"

definition generateTools :: "spec \<Rightarrow> error + tool list" where
  "generateTools sp = path_loop sp (paths sp)"

text \<open>
  \<open>main\<close>: the artifact is written by \<open>writeOutput\<close> after \<open>generateTools\<close> has returned;
  an error thrown before is caught, printed, and the process exits with status 1.
\<close>

datatype artifact = Artifact "tool list"

definition writeOutput :: "tool list \<Rightarrow> artifact" where
  "writeOutput tools = Artifact tools"

definition main :: "spec \<Rightarrow> error + artifact" where
  "main sp =
     (case generateTools sp of
        Inl e \<Rightarrow> Inl e
      | Inr tools \<Rightarrow> Inr (writeOutput tools))"

subsection \<open>What a validator accepts\<close>

text \<open>
  Modelled from the spec: the validator library (zod) that runs the generated
  expressions is a dependency and not part of the repository, so what a compiled
  validator accepts is modelled from the validator description of the spec's data
  model (object with required, optional and nullable properties and an extensibility
  policy reject-unknown, allow-any-unknown or allow-typed-unknown; array; open string or
  closed enumerated set; number; boolean; nullable wrapper; permissive any).
  The value \<open>None\<close> is \<open>undefined\<close>, which is what the validator of a property sees when
  the key is missing.
\<close>

fun is_primitive :: "jvalue \<Rightarrow> bool" where
  "is_primitive (JArr xs) = False"
| "is_primitive (JObj fs) = False"
| "is_primitive v = True"

fun accepts :: "zexpr \<Rightarrow> jvalue option \<Rightarrow> bool" where
  "accepts ZAny v = True"
| "accepts ZString v = (case v of Some (JStr s) \<Rightarrow> True | _ \<Rightarrow> False)"
| "accepts ZNumber v = (case v of Some (JNum n) \<Rightarrow> True | _ \<Rightarrow> False)"
| "accepts ZBoolean v = (case v of Some (JBool b) \<Rightarrow> True | _ \<Rightarrow> False)"
| "accepts (ZEnum vs) v = (case v of Some (JStr s) \<Rightarrow> s \<in> set vs | _ \<Rightarrow> False)"
| "accepts (ZLiteral l) v = (v = Some l \<and> is_primitive l)"
| "accepts (ZUnion es) v = list_ex (\<lambda>e. accepts e v) es"
| "accepts (ZOptional e) v = (v = None \<or> accepts e v)"
| "accepts (ZNullable e) v = (v = Some JNull \<or> accepts e v)"
| "accepts (ZDescribe e parts) v = accepts e v"
| "accepts (ZArray e) v =
     (case v of Some (JArr xs) \<Rightarrow> list_all (\<lambda>x. accepts e (Some x)) xs | _ \<Rightarrow> False)"
| "accepts (ZObject entries Strict) v =
     (case v of
        Some (JObj fs) \<Rightarrow>
          list_all (\<lambda>(k, e). accepts e (map_of fs k)) entries
          \<and> list_all (\<lambda>(k, x). k \<in> fst ` set entries) fs
      | _ \<Rightarrow> False)"
| "accepts (ZObject entries Passthrough) v =
     (case v of
        Some (JObj fs) \<Rightarrow> list_all (\<lambda>(k, e). accepts e (map_of fs k)) entries
      | _ \<Rightarrow> False)"
| "accepts (ZObject entries (Catchall c)) v =
     (case v of
        Some (JObj fs) \<Rightarrow>
          list_all (\<lambda>(k, e). accepts e (map_of fs k)) entries
          \<and> list_all (\<lambda>(k, x). k \<in> fst ` set entries \<or> accepts c (Some x)) fs
      | _ \<Rightarrow> False)"

subsection \<open>The name derivation in the words of the specification\<close>

text \<open>
  The steps as the specification lists them, written position by position and without
  the scanning of a regular expression, to be compared with \<open>toSnakeCase\<close>.
  \<open>insert_between P\<close> puts an underscore between every two neighbours that \<open>P\<close> relates;
  \<open>squeeze_underscores\<close> drops every underscore that is followed by another one.
  \<open>spec_toolName\<close> follows the specification: the identifier, or else the path without its
  leading slash; dots replaced; an underscore at every boundary from a lowercase letter to
  an uppercase letter; other characters replaced; underscores collapsed; lowercased;
  prefixed.
\<close>

fun insert_between :: "(char \<Rightarrow> char \<Rightarrow> bool) \<Rightarrow> string \<Rightarrow> string" where
  "insert_between P (a # b # cs) =
     (if P a b then a # CHR ''_'' # insert_between P (b # cs)
      else a # insert_between P (b # cs))"
| "insert_between P cs = cs"

fun squeeze_underscores :: "string \<Rightarrow> string" where
  "squeeze_underscores (a # b # cs) =
     (if a = CHR ''_'' \<and> b = CHR ''_'' then squeeze_underscores (b # cs)
      else a # squeeze_underscores (b # cs))"
| "squeeze_underscores cs = cs"

definition lower_upper :: "char \<Rightarrow> char \<Rightarrow> bool" where
  "lower_upper a b \<longleftrightarrow> a \<in> set lowers \<and> b \<in> set uppers"

definition lower_or_digit_upper :: "char \<Rightarrow> char \<Rightarrow> bool" where
  "lower_or_digit_upper a b \<longleftrightarrow> (a \<in> set lowers \<or> a \<in> set digits) \<and> b \<in> set uppers"

definition spec_toolName :: "string \<Rightarrow> string option \<Rightarrow> string" where
  "spec_toolName pathKey opId =
     ''outline_'' @ toLowerCase (squeeze_underscores (replace_nonword
       (insert_between lower_upper (replace_dots
          (case opId of Some i \<Rightarrow> i | None \<Rightarrow> strip_slash pathKey)))))"

fun digit_before_upper :: "string \<Rightarrow> bool" where
  "digit_before_upper (a # b # cs) =
     ((a \<in> set digits \<and> b \<in> set uppers) \<or> digit_before_upper (b # cs))"
| "digit_before_upper cs = False"

subsection \<open>Resolved schemas\<close>

text \<open>
  A resolved schema has no reference and no composition left, so that \<open>derefSchema\<close>
  returns it as it is; its kind is not a union (\<open>oneOf\<close>, \<open>anyOf\<close>), which the compiler
  answers with \<open>z.any()\<close> before it looks at the type. \<open>is_object_schema\<close> is the test
  of the object branch. \<open>with_additional\<close> sets \<open>additionalProperties\<close> in an example.
\<close>

definition resolved_schema :: "schema \<Rightarrow> bool" where
  "resolved_schema s \<longleftrightarrow>
     (ref s = None \<or> ref s = Some []) \<and> allOf s = None \<and> oneOf s = None \<and> anyOf s = None"

definition with_additional :: "additional \<Rightarrow> schema \<Rightarrow> schema" where
  "with_additional a s =
     Schema (ref s) (allOf s) (oneOf s) (anyOf s) (type s) (properties s) (required s) a
       (items s) (enum s) (nullable s) (description s) (example s)"

subsection \<open>The reference pointers of a document\<close>

text \<open>
  \<open>refs_of\<close> collects every \<open>$ref\<close> in a schema, at any depth; \<open>refs_in_spec\<close> collects
  those of every node of the document and of every request and response schema of
  every operation. \<open>lookup_failure sp R e\<close> says that \<open>e\<close> is the error of looking up
  some pointer of \<open>R\<close>; the other three predicates state what the resolver and the
  compiler keep true of their results.
\<close>

fun refs_of :: "schema \<Rightarrow> string set"
  and refs_of_additional :: "additional \<Rightarrow> string set" where
  "refs_of (Schema r al oo ao t ps rq ap it en nl d ex) =
     (case r of None \<Rightarrow> {} | Some x \<Rightarrow> {x})
     \<union> (case al of None \<Rightarrow> {} | Some bs \<Rightarrow> (\<Union>b \<in> set bs. refs_of b))
     \<union> (case oo of None \<Rightarrow> {} | Some bs \<Rightarrow> (\<Union>b \<in> set bs. refs_of b))
     \<union> (case ao of None \<Rightarrow> {} | Some bs \<Rightarrow> (\<Union>b \<in> set bs. refs_of b))
     \<union> (case ps of None \<Rightarrow> {} | Some qs \<Rightarrow> (\<Union>q \<in> set qs. refs_of (snd q)))
     \<union> refs_of_additional ap
     \<union> (case it of None \<Rightarrow> {} | Some i \<Rightarrow> refs_of i)"
| "refs_of_additional AP_absent = {}"
| "refs_of_additional (AP_bool b) = {}"
| "refs_of_additional (AP_schema s) = refs_of s"

fun doc_views :: "doc \<Rightarrow> schema set" where
  "doc_views (Mapping v ms) = insert v (\<Union>m \<in> set ms. doc_views (snd m))"
| "doc_views (Sequence xs) = (\<Union>x \<in> set xs. doc_views x)"
| "doc_views Scalar = {}"

fun views_of :: "current \<Rightarrow> schema set" where
  "views_of (Node d) = doc_views d"
| "views_of c = {}"

definition operation_schemas :: "operation \<Rightarrow> schema set" where
  "operation_schemas operation =
     set_option (requestSchema operation) \<union> set_option (response200 operation)
     \<union> set_option (response201 operation)"

definition refs_in_spec :: "spec \<Rightarrow> string set" where
  "refs_in_spec sp =
     (\<Union>s \<in> doc_views (document sp). refs_of s)
     \<union> (\<Union>p \<in> set (paths sp). \<Union>m \<in> set (snd p). \<Union>s \<in> operation_schemas (snd m). refs_of s)"

definition lookup_failure :: "spec \<Rightarrow> string set \<Rightarrow> error \<Rightarrow> bool" where
  "lookup_failure sp R e \<longleftrightarrow> (\<exists>r \<in> R. resolveRef sp r = Inl e)"

definition closed_refs :: "spec \<Rightarrow> string set \<Rightarrow> bool" where
  "closed_refs sp R \<longleftrightarrow> (\<forall>r s. resolveRef sp r = Inr s \<longrightarrow> refs_of s \<subseteq> R)"

definition deref_ok :: "spec \<Rightarrow> string set \<Rightarrow> error + (schema \<times> string set) \<Rightarrow> bool" where
  "deref_ok sp R res \<longleftrightarrow>
     (case res of Inl e \<Rightarrow> lookup_failure sp R e | Inr (x, seen) \<Rightarrow> refs_of x \<subseteq> R)"

definition compile_ok :: "spec \<Rightarrow> string set \<Rightarrow> error + 'a \<Rightarrow> bool" where
  "compile_ok sp R res \<longleftrightarrow> (case res of Inl e \<Rightarrow> lookup_failure sp R e | Inr x \<Rightarrow> True)"

subsection \<open>Example documents\<close>

text \<open>An example document lists the members that its reference pointers pass through.\<close>

definition example_spec :: spec where
  "example_spec = \<lparr> document = Mapping empty_schema [], paths = [] \<rparr>"

definition delete_operation :: operation where
  "delete_operation =
     \<lparr> operationId = Some ''documents.delete'', summary = None, op_description = None,
       requestSchema = None, response200 = None, response201 = None \<rparr>"

definition unnamed_operation :: operation where
  "unnamed_operation =
     \<lparr> operationId = None, summary = None, op_description = None,
       requestSchema = None, response200 = None, response201 = None \<rparr>"

text \<open>One path that answers both POST and GET, neither operation with an identifier.\<close>

definition two_methods_spec :: spec where
  "two_methods_spec =
     \<lparr> document = Mapping empty_schema [],
       paths = [(''/x'', [(''post'', unnamed_operation), (''get'', unnamed_operation)])] \<rparr>"

text \<open>
  Documents whose \<open>components.schemas\<close> holds the given schemas, and the schemas of the
  examples: \<open>A\<close> is an object with a required string \<open>id\<close>, \<open>B\<close> an object with a
  required string \<open>name\<close>, \<open>C\<close> an object that declares \<open>id\<close> as a number.
\<close>

definition components_spec :: "(string \<times> schema) list \<Rightarrow> spec" where
  "components_spec schemas =
     \<lparr> document =
         Mapping empty_schema
           [(''components'',
             Mapping empty_schema
               [(''schemas'', Mapping empty_schema (map (\<lambda>(k, s). (k, Mapping s [])) schemas))])],
       paths = [] \<rparr>"

definition part_A :: schema where
  "part_A = object_schema [(''id'', typed_schema ''string'')] [''id'']"

definition proto_part :: schema where
  "proto_part = object_schema [(''__proto__'', typed_schema ''string'')] []"

definition part_B :: schema where
  "part_B = object_schema [(''name'', typed_schema ''string'')] [''name'']"

definition part_C :: schema where
  "part_C = object_schema [(''id'', typed_schema ''number'')] [''id'']"

definition untyped_enum_schema :: "jvalue list \<Rightarrow> schema" where
  "untyped_enum_schema vs =
     Schema None None None None None None None AP_absent None (Some vs) False None None"

definition optional_id :: schema where
  "optional_id = object_schema [(''id'', typed_schema ''string'')] []"

definition ref_A :: schema where
  "ref_A = ref_schema ''#/components/schemas/A''"

definition ref_B :: schema where
  "ref_B = ref_schema ''#/components/schemas/B''"

definition ref_C :: schema where
  "ref_C = ref_schema ''#/components/schemas/C''"

definition abc_spec :: spec where
  "abc_spec = components_spec [(''A'', part_A), (''B'', part_B), (''C'', part_C)]"

definition self_ref_spec :: spec where
  "self_ref_spec = components_spec [(''A'', ref_A)]"

definition shared_spec :: spec where
  "shared_spec = components_spec [(''A'', part_A)]"

text \<open>
  Documents with a pointer to a schema \<open>Missing\<close> that does not exist: in a component
  that no operation uses and under the \<open>oneOf\<close> of a request schema; as the request
  schema itself; and a document whose one pointer resolves.
\<close>

definition oneOf_schema :: "schema list \<Rightarrow> schema" where
  "oneOf_schema bs =
     Schema None None (Some bs) None None None None AP_absent None None False None None"

definition request_operation :: "schema \<Rightarrow> operation" where
  "request_operation s =
     \<lparr> operationId = None, summary = None, op_description = None,
       requestSchema = Some s, response200 = None, response201 = None \<rparr>"

definition ref_Missing :: schema where
  "ref_Missing = ref_schema ''#/components/schemas/Missing''"

definition dangling_unused_spec :: spec where
  "dangling_unused_spec =
     (components_spec [(''Broken'', ref_Missing)])
       \<lparr> paths := [(''/auth.info'', [(''post'', request_operation (oneOf_schema [ref_Missing]))])] \<rparr>"

definition dangling_request_spec :: spec where
  "dangling_request_spec =
     (components_spec [(''A'', part_A)])
       \<lparr> paths := [(''/auth.info'', [(''post'', request_operation ref_Missing)])] \<rparr>"

definition resolved_request_spec :: spec where
  "resolved_request_spec =
     (components_spec [(''A'', part_A)])
       \<lparr> paths := [(''/auth.info'', [(''post'', request_operation ref_A)])] \<rparr>"

subsection \<open>The operations of a document, in the order of generation\<close>

definition operations_of :: "spec \<Rightarrow> (string \<times> operation) list" where
  "operations_of sp =
     concat (map (\<lambda>(pathKey, pathItem).
                    map (Pair pathKey) (List.map_filter (map_of pathItem) methods))
                 (paths sp))"

subsection \<open>Resolved branches of a composition\<close>

text \<open>
  The properties and the required names of a resolved schema as \<open>mergeAllOfSchemas\<close>
  reads them, and the branches of an \<open>allOf\<close> resolved one after the other at
  \<open>depth + 1\<close>, each with the set of seen references that the one before left.
\<close>

definition props_of :: "schema \<Rightarrow> (string \<times> schema) list" where
  "props_of s = (case properties s of Some ps \<Rightarrow> ps | None \<Rightarrow> [])"

definition required_of :: "schema \<Rightarrow> string list" where
  "required_of s = (case required s of Some rs \<Rightarrow> rs | None \<Rightarrow> [])"

fun resolve_branches ::
  "spec \<Rightarrow> schema list \<Rightarrow> string set \<Rightarrow> nat \<Rightarrow> error + (schema list \<times> string set)" where
  "resolve_branches sp [] seenRefs depth = Inr ([], seenRefs)"
| "resolve_branches sp (s # schemas) seenRefs depth =
     (case derefSchema sp s seenRefs (depth + 1) of
        Inl e \<Rightarrow> Inl e
      | Inr (resolved, seenRefs') \<Rightarrow>
          (case resolve_branches sp schemas seenRefs' depth of
             Inl e \<Rightarrow> Inl e
           | Inr (rs, seenRefs'') \<Rightarrow> Inr (resolved # rs, seenRefs'')))"

text \<open>The object literal that \<open>mergeAllOfSchemas\<close> returns.\<close>

definition merged_schema :: "(string \<times> schema) list \<Rightarrow> string list \<Rightarrow> schema" where
  "merged_schema ps rs =
     Schema None None None None (Some ''object'') (Some ps)
       (if rs = [] then None else Some rs) AP_absent None None False None None"

subsection \<open>The reference pointers that a run looks up\<close>

text \<open>
  \<open>deref_reaches sp s seenRefs depth r\<close>: the call of \<open>derefSchema\<close> with these arguments
  comes to the call \<open>resolveRef(spec, r)\<close>, unless an earlier lookup has thrown. Within
  the depth bound, that is the \<open>$ref\<close> of \<open>s\<close> when it is not in \<open>seenRefs\<close>; a pointer
  reached from the target of that \<open>$ref\<close>, one level deeper and with the \<open>$ref\<close> added to
  the set; and a pointer reached from a branch of the \<open>allOf\<close> of a schema without
  \<open>$ref\<close>, a later branch with the set as the earlier branches have left it.
\<close>

inductive deref_reaches :: "spec \<Rightarrow> schema \<Rightarrow> string set \<Rightarrow> nat \<Rightarrow> string \<Rightarrow> bool"
  and branches_reach :: "spec \<Rightarrow> schema list \<Rightarrow> string set \<Rightarrow> nat \<Rightarrow> string \<Rightarrow> bool"
where
  looked_up:
    "depth \<le> MAX_SCHEMA_DEPTH \<Longrightarrow> ref s = Some r \<Longrightarrow> r \<noteq> [] \<Longrightarrow> r \<notin> seenRefs \<Longrightarrow>
     deref_reaches sp s seenRefs depth r"
| in_target:
    "depth \<le> MAX_SCHEMA_DEPTH \<Longrightarrow> ref s = Some r0 \<Longrightarrow> r0 \<noteq> [] \<Longrightarrow> r0 \<notin> seenRefs \<Longrightarrow>
     resolveRef sp r0 = Inr target \<Longrightarrow>
     deref_reaches sp target (insert r0 seenRefs) (depth + 1) r \<Longrightarrow>
     deref_reaches sp s seenRefs depth r"
| in_allOf:
    "depth \<le> MAX_SCHEMA_DEPTH \<Longrightarrow> ref s = None \<or> ref s = Some [] \<Longrightarrow>
     allOf s = Some schemas \<Longrightarrow> branches_reach sp schemas seenRefs depth r \<Longrightarrow>
     deref_reaches sp s seenRefs depth r"
| in_branch:
    "deref_reaches sp b seenRefs (depth + 1) r \<Longrightarrow>
     branches_reach sp (b # schemas) seenRefs depth r"
| in_later_branch:
    "derefSchema sp b seenRefs (depth + 1) = Inr (resolved, seenRefs') \<Longrightarrow>
     branches_reach sp schemas seenRefs' depth r \<Longrightarrow>
     branches_reach sp (b # schemas) seenRefs depth r"

text \<open>
  \<open>compile_reaches sp s m depth seenRefs r\<close>: the same for the call of
  \<open>schemaToZodExpression\<close>: a pointer reached in the resolution of \<open>s\<close>, and, when the
  resolved schema is compiled (within the depth bound, neither \<open>oneOf\<close> nor \<open>anyOf\<close>), a
  pointer reached from one of its properties, from its \<open>additionalProperties\<close> schema in
  input mode, or from the \<open>items\<close> of an array, each compiled one level deeper with a
  copy of the set that the resolution has left.
\<close>

inductive compile_reaches ::
  "spec \<Rightarrow> schema \<Rightarrow> mode \<Rightarrow> nat \<Rightarrow> string set \<Rightarrow> string \<Rightarrow> bool"
where
  in_resolution:
    "deref_reaches sp s seenRefs0 depth r \<Longrightarrow> compile_reaches sp s m depth seenRefs0 r"
| in_property:
    "derefSchema sp s seenRefs0 depth = Inr (resolved, seenRefs) \<Longrightarrow>
     depth \<le> MAX_SCHEMA_DEPTH \<Longrightarrow> oneOf resolved = None \<Longrightarrow> anyOf resolved = None \<Longrightarrow>
     properties resolved = Some ps \<Longrightarrow> (key, propertySchema) \<in> set ps \<Longrightarrow>
     compile_reaches sp propertySchema m (depth + 1) seenRefs r \<Longrightarrow>
     compile_reaches sp s m depth seenRefs0 r"
| in_catchall:
    "derefSchema sp s seenRefs0 depth = Inr (resolved, seenRefs) \<Longrightarrow>
     depth \<le> MAX_SCHEMA_DEPTH \<Longrightarrow> oneOf resolved = None \<Longrightarrow> anyOf resolved = None \<Longrightarrow>
     is_object_schema resolved \<Longrightarrow> additionalProperties resolved = AP_schema a \<Longrightarrow>
     compile_reaches sp a Input (depth + 1) seenRefs r \<Longrightarrow>
     compile_reaches sp s Input depth seenRefs0 r"
| in_items:
    "derefSchema sp s seenRefs0 depth = Inr (resolved, seenRefs) \<Longrightarrow>
     depth \<le> MAX_SCHEMA_DEPTH \<Longrightarrow> oneOf resolved = None \<Longrightarrow> anyOf resolved = None \<Longrightarrow>
     \<not> is_object_schema resolved \<Longrightarrow> type resolved = Some ''array'' \<Longrightarrow>
     items resolved = Some it \<Longrightarrow>
     compile_reaches sp it m (depth + 1) seenRefs r \<Longrightarrow>
     compile_reaches sp s m depth seenRefs0 r"

text \<open>
  An operation: \<open>buildInputSchemaExpression\<close> (and \<open>hasPagination\<close>) resolves the request
  schema and compiles what it resolves to; \<open>buildOutputSchemaExpression\<close> resolves the
  success response schema and, when that resolves to an object schema, compiles the
  response schema. A run reaches what one of its operations reaches.
\<close>

definition request_reaches :: "spec \<Rightarrow> operation \<Rightarrow> string \<Rightarrow> bool" where
  "request_reaches sp operation r \<longleftrightarrow>
     (\<exists>rq. requestSchema operation = Some rq \<and>
        (deref_reaches sp rq {} 0 r
         \<or> (\<exists>resolved seenRefs. derefSchema sp rq {} 0 = Inr (resolved, seenRefs)
               \<and> compile_reaches sp resolved Input 0 {} r)))"

definition response_reaches :: "spec \<Rightarrow> operation \<Rightarrow> string \<Rightarrow> bool" where
  "response_reaches sp operation r \<longleftrightarrow>
     (\<exists>rs. responseSchema operation = Some rs \<and>
        (deref_reaches sp rs {} 0 r
         \<or> (\<exists>resolved seenRefs. derefSchema sp rs {} 0 = Inr (resolved, seenRefs)
               \<and> is_object_schema resolved \<and> compile_reaches sp rs Output 0 {} r)))"

definition run_reaches :: "spec \<Rightarrow> string \<Rightarrow> bool" where
  "run_reaches sp r \<longleftrightarrow>
     (\<exists>(pathKey, operation) \<in> set (operations_of sp).
        request_reaches sp operation r \<or> response_reaches sp operation r)"

subsection \<open>Example documents with a pointer that cannot be looked up\<close>

text \<open>
  \<open>request_spec rq\<close> has the component schemas \<open>A\<close> and \<open>User\<close>, where \<open>User\<close> has a property
  whose schema is a pointer to the missing schema \<open>Missing\<close>, and one operation with the
  request schema \<open>rq\<close>; \<open>response_spec rs\<close> has one operation with the response schema \<open>rs\<close>
  under the status 201.
\<close>

definition array_schema :: "schema \<Rightarrow> schema" where
  "array_schema it =
     Schema None None None None (Some ''array'') None None AP_absent (Some it) None False
       None None"

definition catchall_schema :: "schema \<Rightarrow> schema" where
  "catchall_schema a =
     Schema None None None None (Some ''object'') None None (AP_schema a) None None False
       None None"

definition response_operation :: "schema \<Rightarrow> operation" where
  "response_operation s =
     \<lparr> operationId = None, summary = None, op_description = None,
       requestSchema = None, response200 = None, response201 = Some s \<rparr>"

definition user_schema :: schema where
  "user_schema = object_schema [(''id'', typed_schema ''string''), (''team'', ref_Missing)] []"

definition request_spec :: "schema \<Rightarrow> spec" where
  "request_spec rq =
     (components_spec [(''A'', part_A), (''User'', user_schema)])
       \<lparr> paths := [(''/auth.info'', [(''post'', request_operation rq)])] \<rparr>"

definition response_spec :: "schema \<Rightarrow> spec" where
  "response_spec rs =
     (components_spec [(''A'', part_A), (''User'', user_schema)])
       \<lparr> paths := [(''/auth.info'', [(''post'', response_operation rs)])] \<rparr>"

definition nested_request :: schema where
  "nested_request = object_schema [(''id'', typed_schema ''string''), (''user'', ref_Missing)] []"

text \<open>
  A document with a sequence \<open>tags\<close> of a mapping and a scalar, and a mapping \<open>info\<close> with
  a scalar \<open>title\<close>; its one request schema is a pointer to the inherited member
  \<open>toString\<close> of \<open>info\<close>.
\<close>

definition tags_spec :: spec where
  "tags_spec =
     \<lparr> document =
         Mapping empty_schema
           [(''tags'', Sequence [Mapping (typed_schema ''string'') [], Scalar]),
            (''info'', Mapping empty_schema [(''title'', Scalar)])],
       paths = [(''/auth.info'', [(''post'', request_operation (ref_schema ''#/info/toString''))])] \<rparr>"

section \<open>Properties\<close>

subsection \<open>Annotations\<close>

lemma matches_here_iff:
  "matches_here t s \<longleftrightarrow> (\<exists>mid post. s = mid @ post \<and> toLowerCase mid = toLowerCase t)"
proof (induction t s rule: matches_here.induct)
  case (1 s)
  then show ?case by (simp add: toLowerCase_def)
next
  case (2 t ts)
  then show ?case by (simp add: toLowerCase_def)
next
  case (3 t ts c cs)
  show ?case
  proof
    assume "matches_here (t # ts) (c # cs)"
    then have h: "toLowerCase_char t = toLowerCase_char c" and "matches_here ts cs" by simp_all
    with 3 obtain mid post where "cs = mid @ post" "toLowerCase mid = toLowerCase ts" by blast
    then have "c # cs = (c # mid) @ post \<and> toLowerCase (c # mid) = toLowerCase (t # ts)"
      using h by (simp add: toLowerCase_def)
    then show "\<exists>mid post. c # cs = mid @ post \<and> toLowerCase mid = toLowerCase (t # ts)" by blast
  next
    assume "\<exists>mid post. c # cs = mid @ post \<and> toLowerCase mid = toLowerCase (t # ts)"
    then obtain mid post where m: "c # cs = mid @ post" "toLowerCase mid = toLowerCase (t # ts)" by blast
    then obtain mid' where mid: "mid = c # mid'" by (cases mid) (auto simp: toLowerCase_def)
    with m have "cs = mid' @ post" "toLowerCase mid' = toLowerCase ts" "toLowerCase_char t = toLowerCase_char c"
      by (auto simp: toLowerCase_def)
    with 3 show "matches_here (t # ts) (c # cs)" by auto
  qed
qed

lemma regex_test_iff:
  "regex_test tokens s \<longleftrightarrow>
     (\<exists>t \<in> set tokens. \<exists>pre mid post. s = pre @ mid @ post \<and> toLowerCase mid = toLowerCase t)"
proof (induction s)
  case Nil
  show ?case by (auto simp: list_ex_iff matches_here_iff)
next
  case (Cons c cs)
  have "regex_test tokens (c # cs) \<longleftrightarrow>
      (\<exists>t \<in> set tokens. matches_here t (c # cs)) \<or> regex_test tokens cs"
    by (simp add: list_ex_iff)
  also have "\<dots> \<longleftrightarrow> (\<exists>t \<in> set tokens. (\<exists>mid post. c # cs = mid @ post \<and> toLowerCase mid = toLowerCase t)
        \<or> (\<exists>pre mid post. cs = pre @ mid @ post \<and> toLowerCase mid = toLowerCase t))"
    unfolding Cons.IH matches_here_iff by blast
  also have "\<dots> \<longleftrightarrow> (\<exists>t \<in> set tokens. \<exists>pre mid post. c # cs = pre @ mid @ post \<and> toLowerCase mid = toLowerCase t)"
  proof -
    have "(\<exists>pre mid post. c # cs = pre @ mid @ post \<and> toLowerCase mid = toLowerCase t) \<longleftrightarrow>
        (\<exists>mid post. c # cs = mid @ post \<and> toLowerCase mid = toLowerCase t)
        \<or> (\<exists>pre mid post. cs = pre @ mid @ post \<and> toLowerCase mid = toLowerCase t)" for t
    proof
      assume "\<exists>pre mid post. c # cs = pre @ mid @ post \<and> toLowerCase mid = toLowerCase t"
      then obtain pre mid post where h: "c # cs = pre @ mid @ post" "toLowerCase mid = toLowerCase t" by blast
      show "(\<exists>mid post. c # cs = mid @ post \<and> toLowerCase mid = toLowerCase t)
        \<or> (\<exists>pre mid post. cs = pre @ mid @ post \<and> toLowerCase mid = toLowerCase t)"
      proof (cases pre)
        case Nil
        with h show ?thesis by auto
      next
        case (Cons p pre')
        with h have "cs = pre' @ mid @ post" by simp
        with h show ?thesis by blast
      qed
    next
      assume "(\<exists>mid post. c # cs = mid @ post \<and> toLowerCase mid = toLowerCase t)
        \<or> (\<exists>pre mid post. cs = pre @ mid @ post \<and> toLowerCase mid = toLowerCase t)"
      then show "\<exists>pre mid post. c # cs = pre @ mid @ post \<and> toLowerCase mid = toLowerCase t"
      proof
        assume "\<exists>mid post. c # cs = mid @ post \<and> toLowerCase mid = toLowerCase t"
        then obtain mid post where "c # cs = [] @ mid @ post \<and> toLowerCase mid = toLowerCase t" by auto
        then show ?thesis by blast
      next
        assume "\<exists>pre mid post. cs = pre @ mid @ post \<and> toLowerCase mid = toLowerCase t"
        then obtain pre mid post where "c # cs = (c # pre) @ mid @ post \<and> toLowerCase mid = toLowerCase t" by auto
        then show ?thesis by blast
      qed
    qed
    then show ?thesis by simp
  qed
  finally show ?case .
qed

lemma make_tool_annotations:
  "make_tool sp pathKey operation = Inr t \<Longrightarrow>
   tool_annotations t =
     annotations_of (case operationId operation of Some i \<Rightarrow> i | None \<Rightarrow> strip_slash pathKey)"
  by (auto simp: make_tool_def Let_def split: sum.splits)

text \<open>
  C8. The annotations of a tool come from its operation identifier (the path without
  its leading slash when the operation has none): \<open>readOnlyHint\<close> holds exactly when
  some part of the identifier equals a read token up to letter case, \<open>idempotentHint\<close>
  equals \<open>readOnlyHint\<close>, \<open>destructiveHint\<close> holds exactly when some part equals a
  destructive token up to letter case, and \<open>openWorldHint\<close> is always true. Both hints
  can hold at once (\<open>views.delete\<close>). \<open>collections.list\<close> gives read-only, not
  destructive, idempotent, open world; \<open>documents.delete\<close> gives not read-only,
  destructive, not idempotent, open world. Letter case does not matter: \<open>Documents.LIST\<close>
  is read-only as \<open>documents.list\<close> is, and \<open>xDESTROYx\<close> is destructive.
\<close>

theorem annotations_from_tokens:
  "(readOnlyHint (annotations_of i) \<longleftrightarrow>
      (\<exists>t \<in> set READ_ONLY_PATTERN. \<exists>pre mid post.
         i = pre @ mid @ post \<and> toLowerCase mid = toLowerCase t))
   \<and> idempotentHint (annotations_of i) = readOnlyHint (annotations_of i)
   \<and> (destructiveHint (annotations_of i) \<longleftrightarrow>
      (\<exists>t \<in> set DESTRUCTIVE_PATTERN. \<exists>pre mid post.
         i = pre @ mid @ post \<and> toLowerCase mid = toLowerCase t))
   \<and> openWorldHint (annotations_of i)
   \<and> (make_tool sp pathKey operation = Inr t \<longrightarrow>
        tool_annotations t =
          annotations_of
            (case operationId operation of Some j \<Rightarrow> j | None \<Rightarrow> strip_slash pathKey))
   \<and> annotations_of ''collections.list'' =
        \<lparr> readOnlyHint = True, destructiveHint = False, idempotentHint = True,
          openWorldHint = True \<rparr>
   \<and> annotations_of ''documents.delete'' =
        \<lparr> readOnlyHint = False, destructiveHint = True, idempotentHint = False,
          openWorldHint = True \<rparr>
   \<and> readOnlyHint (annotations_of ''views.delete'')
   \<and> destructiveHint (annotations_of ''views.delete'')
   \<and> annotations_of ''Documents.LIST'' =
        \<lparr> readOnlyHint = True, destructiveHint = False, idempotentHint = True,
          openWorldHint = True \<rparr>
   \<and> annotations_of ''xDESTROYx'' =
        \<lparr> readOnlyHint = False, destructiveHint = True, idempotentHint = False,
          openWorldHint = True \<rparr>
   \<and> annotations_of ''Collections.Export_All'' = annotations_of ''collections.export_all''
   \<and> toLowerCase ''Documents.LIST'' = ''documents.list''"
proof -
  have a: "readOnlyHint (annotations_of i) \<longleftrightarrow>
      (\<exists>t \<in> set READ_ONLY_PATTERN. \<exists>pre mid post.
         i = pre @ mid @ post \<and> toLowerCase mid = toLowerCase t)"
    by (simp add: annotations_of_def Let_def regex_test_iff)
  have b: "idempotentHint (annotations_of i) = readOnlyHint (annotations_of i)"
    by (simp add: annotations_of_def Let_def)
  have c: "destructiveHint (annotations_of i) \<longleftrightarrow>
      (\<exists>t \<in> set DESTRUCTIVE_PATTERN. \<exists>pre mid post.
         i = pre @ mid @ post \<and> toLowerCase mid = toLowerCase t)"
    by (simp add: annotations_of_def Let_def regex_test_iff)
  have d: "openWorldHint (annotations_of i)"
    by (simp add: annotations_of_def Let_def)
  have e: "make_tool sp pathKey operation = Inr t \<longrightarrow>
        tool_annotations t =
          annotations_of
            (case operationId operation of Some j \<Rightarrow> j | None \<Rightarrow> strip_slash pathKey)"
    using make_tool_annotations by blast
  have f: "annotations_of ''collections.list'' =
        \<lparr> readOnlyHint = True, destructiveHint = False, idempotentHint = True,
          openWorldHint = True \<rparr>"
    by code_simp
  have g: "annotations_of ''documents.delete'' =
        \<lparr> readOnlyHint = False, destructiveHint = True, idempotentHint = False,
          openWorldHint = True \<rparr>"
    by code_simp
  have h: "readOnlyHint (annotations_of ''views.delete'')"
    by code_simp
  have k: "destructiveHint (annotations_of ''views.delete'')"
    by code_simp
  have l: "annotations_of ''Documents.LIST'' =
        \<lparr> readOnlyHint = True, destructiveHint = False, idempotentHint = True,
          openWorldHint = True \<rparr>"
    by code_simp
  have m: "annotations_of ''xDESTROYx'' =
        \<lparr> readOnlyHint = False, destructiveHint = True, idempotentHint = False,
          openWorldHint = True \<rparr>"
    by code_simp
  have n: "annotations_of ''Collections.Export_All'' = annotations_of ''collections.export_all''"
    by code_simp
  have o: "toLowerCase ''Documents.LIST'' = ''documents.list''"
    by code_simp
  from a b c d e f g h k l m n o show ?thesis by blast
qed

theorem annotations_from_tokens_witness:
  "make_tool example_spec ''/documents.delete'' delete_operation =
     Inr \<lparr> name = ''outline_documents_delete'', title = ''outline_documents_delete'',
           tool_description = [], methodName = ''documents.delete'',
           inputSchema = ZObject [] Strict, outputSchema = None,
           tool_annotations =
             \<lparr> readOnlyHint = False, destructiveHint = True, idempotentHint = False,
               openWorldHint = True \<rparr> \<rparr>
   \<and> tool_annotations
        \<lparr> name = ''outline_documents_delete'', title = ''outline_documents_delete'',
          tool_description = [], methodName = ''documents.delete'',
          inputSchema = ZObject [] Strict, outputSchema = None,
          tool_annotations =
            \<lparr> readOnlyHint = False, destructiveHint = True, idempotentHint = False,
              openWorldHint = True \<rparr> \<rparr>
       = annotations_of ''documents.delete''"
proof -
  have m: "make_tool example_spec ''/documents.delete'' delete_operation =
     Inr \<lparr> name = ''outline_documents_delete'', title = ''outline_documents_delete'',
           tool_description = [], methodName = ''documents.delete'',
           inputSchema = ZObject [] Strict, outputSchema = None,
           tool_annotations =
             \<lparr> readOnlyHint = False, destructiveHint = True, idempotentHint = False,
               openWorldHint = True \<rparr> \<rparr>"
    by code_simp
  have o: "operationId delete_operation = Some ''documents.delete''"
    by (simp add: delete_operation_def)
  from m o annotations_from_tokens [of _ example_spec "''/documents.delete''" delete_operation]
  show ?thesis by simp
qed

subsection \<open>Tool names\<close>

lemma upper_not_lower_digit: "b \<in> set uppers \<Longrightarrow> b \<notin> set lowers \<and> b \<notin> set digits"
  by (auto simp: uppers_def lowers_def digits_def)

lemma split_camel_upper: "b \<in> set uppers \<Longrightarrow> split_camel (b # cs) = b # split_camel cs"
  by (cases cs) (auto dest: upper_not_lower_digit)

lemma insert_between_upper:
  "b \<in> set uppers \<Longrightarrow>
   insert_between lower_or_digit_upper (b # cs) = b # insert_between lower_or_digit_upper cs"
  by (cases cs) (auto simp: lower_or_digit_upper_def dest: upper_not_lower_digit)

lemma split_camel_insert_between: "split_camel s = insert_between lower_or_digit_upper s"
proof (induction s rule: split_camel.induct)
  case (1 a b cs)
  show ?case
  proof (cases "(a \<in> set lowers \<or> a \<in> set digits) \<and> b \<in> set uppers")
    case True
    then have "split_camel (a # b # cs) = a # CHR ''_'' # b # insert_between lower_or_digit_upper cs"
      using 1(1) by simp
    moreover have "insert_between lower_or_digit_upper (a # b # cs)
        = a # CHR ''_'' # insert_between lower_or_digit_upper (b # cs)"
      using True by (simp add: lower_or_digit_upper_def)
    ultimately show ?thesis using True insert_between_upper by simp
  next
    case False
    then have "split_camel (a # b # cs) = a # insert_between lower_or_digit_upper (b # cs)"
      using 1(2) by auto
    moreover have "insert_between lower_or_digit_upper (a # b # cs)
        = a # insert_between lower_or_digit_upper (b # cs)"
      using False by (simp add: lower_or_digit_upper_def)
    ultimately show ?thesis by simp
  qed
qed simp_all

lemma squeeze_run:
  "squeeze_underscores (CHR ''_'' # cs)
     = CHR ''_'' # squeeze_underscores (dropWhile (\<lambda>c. c = CHR ''_'') cs)"
proof (induction cs)
  case Nil
  show ?case by simp
next
  case (Cons c cs)
  show ?case
  proof (cases "c = CHR ''_''")
    case True
    with Cons show ?thesis by simp
  next
    case False
    then show ?thesis by (cases cs) auto
  qed
qed

lemma collapse_squeeze: "collapse_underscores s = squeeze_underscores s"
proof (induction s rule: collapse_underscores.induct)
  case (3 a b cs)
  show ?case
  proof (cases "a = CHR ''_'' \<and> b = CHR ''_''")
    case True
    then have "collapse_underscores (a # b # cs)
         = CHR ''_'' # squeeze_underscores (dropWhile (\<lambda>c. c = CHR ''_'') cs)"
      using 3(1) by simp
    also have "\<dots> = squeeze_underscores (CHR ''_'' # cs)" by (simp add: squeeze_run)
    also have "\<dots> = squeeze_underscores (a # b # cs)" using True by simp
    finally show ?thesis .
  next
    case False
    then show ?thesis using 3(2) by auto
  qed
qed simp_all

lemma toolName_of_amended:
  "toolName_of pathKey opId =
     ''outline_'' @ toLowerCase (squeeze_underscores (replace_nonword
       (insert_between lower_or_digit_upper (replace_dots
          (strip_slash (case opId of Some i \<Rightarrow> i | None \<Rightarrow> strip_slash pathKey))))))"
  by (simp add: toolName_of_def toSnakeCase_def Let_def split_camel_insert_between collapse_squeeze)

lemma insert_between_no_digit:
  "\<not> digit_before_upper s \<Longrightarrow>
   insert_between lower_or_digit_upper s = insert_between lower_upper s"
  by (induction s rule: digit_before_upper.induct)
     (auto simp: lower_or_digit_upper_def lower_upper_def)

lemma digit_before_upper_dots: "digit_before_upper (replace_dots s) = digit_before_upper s"
  by (induction s rule: digit_before_upper.induct)
     (auto simp: replace_dots_def digits_def uppers_def)

lemma strip_slash_id: "take 1 s \<noteq> ''/'' \<Longrightarrow> strip_slash s = s"
  by (cases s) auto

lemma toolName_agrees:
  assumes "base = (case opId of Some i \<Rightarrow> i | None \<Rightarrow> strip_slash pathKey)"
    and "take 1 base \<noteq> ''/''" and "\<not> digit_before_upper base"
  shows "toolName_of pathKey opId = spec_toolName pathKey opId"
  using assms
  by (simp add: toolName_of_amended spec_toolName_def strip_slash_id insert_between_no_digit
      digit_before_upper_dots)

text \<open>
  C7, as stated, fails: the specification inserts an underscore only between a
  lowercase letter and an uppercase letter and strips the slash only from the path,
  while \<open>toSnakeCase\<close> also inserts one between a digit and an uppercase letter and
  strips a leading slash from the identifier too.
\<close>

theorem toolName_spec_counterexample:
  "toolName_of ''/x'' (Some ''v2Api'') = ''outline_v2_api''
   \<and> spec_toolName ''/x'' (Some ''v2Api'') = ''outline_v2api''
   \<and> toolName_of ''/x'' (Some ''/a'') = ''outline_a''
   \<and> spec_toolName ''/x'' (Some ''/a'') = ''outline__a''
   \<and> toolName_of ''/x'' (Some ''v2Api'') \<noteq> spec_toolName ''/x'' (Some ''v2Api'')"
proof -
  have "toolName_of ''/x'' (Some ''v2Api'') = ''outline_v2_api''" by code_simp
  moreover have "spec_toolName ''/x'' (Some ''v2Api'') = ''outline_v2api''" by code_simp
  moreover have "toolName_of ''/x'' (Some ''/a'') = ''outline_a''" by code_simp
  moreover have "spec_toolName ''/x'' (Some ''/a'') = ''outline__a''" by code_simp
  ultimately show ?thesis by simp
qed

text \<open>
  C7, amended. The tool name is a function of the identifier and the path: from the
  identifier, or else the path without its leading slash, one leading slash is removed,
  every dot becomes an underscore, an underscore is inserted between every lowercase
  letter or digit and an uppercase letter that follows it, every character outside
  \<open>[a-zA-Z0-9_]\<close> becomes an underscore, repeated underscores are collapsed, the result
  is lowercased and prefixed with \<open>outline_\<close>. Where the identifier (or stripped path)
  does not begin with a slash and has no digit before an uppercase letter, this is the
  name the specification describes. \<open>documents.info\<close> gives \<open>outline_documents_info\<close>,
  and the path \<open>/auth.info\<close> without an identifier gives \<open>outline_auth_info\<close>.
\<close>

theorem toolName_derivation:
  "toolName_of pathKey opId =
     ''outline_'' @ toLowerCase (squeeze_underscores (replace_nonword
       (insert_between lower_or_digit_upper (replace_dots
          (strip_slash (case opId of Some i \<Rightarrow> i | None \<Rightarrow> strip_slash pathKey))))))
   \<and> (take 1 (case opId of Some i \<Rightarrow> i | None \<Rightarrow> strip_slash pathKey) \<noteq> ''/''
        \<and> \<not> digit_before_upper (case opId of Some i \<Rightarrow> i | None \<Rightarrow> strip_slash pathKey)
      \<longrightarrow> toolName_of pathKey opId = spec_toolName pathKey opId)
   \<and> toolName_of pathKey (Some ''documents.info'') = ''outline_documents_info''
   \<and> toolName_of ''/auth.info'' None = ''outline_auth_info''
   \<and> toolName_of ''/auth.info'' None = toolName_of pathKey (Some ''auth.info'')"
proof -
  have a: "toolName_of pathKey (Some ''documents.info'') = toolName_of [] (Some ''documents.info'')"
    by (simp add: toolName_of_def)
  have b: "toolName_of [] (Some ''documents.info'') = ''outline_documents_info''"
    by code_simp
  have c: "toolName_of ''/auth.info'' None = ''outline_auth_info''"
    by code_simp
  have d: "toolName_of pathKey (Some ''auth.info'') = toolName_of [] (Some ''auth.info'')"
    by (simp add: toolName_of_def)
  have e: "toolName_of [] (Some ''auth.info'') = ''outline_auth_info''"
    by code_simp
  have f: "take 1 (case opId of Some i \<Rightarrow> i | None \<Rightarrow> strip_slash pathKey) \<noteq> ''/''
        \<and> \<not> digit_before_upper (case opId of Some i \<Rightarrow> i | None \<Rightarrow> strip_slash pathKey)
      \<longrightarrow> toolName_of pathKey opId = spec_toolName pathKey opId"
    using toolName_agrees [where opId = opId and pathKey = pathKey, OF refl] by blast
  from toolName_of_amended [of pathKey opId] f a b c d e show ?thesis
    by simp
qed

theorem toolName_derivation_witness:
  "take 1 (strip_slash ''/auth.info'') \<noteq> ''/''
   \<and> \<not> digit_before_upper (strip_slash ''/auth.info'')
   \<and> toolName_of ''/auth.info'' None = spec_toolName ''/auth.info'' None"
proof -
  have a: "take 1 (strip_slash ''/auth.info'') \<noteq> ''/''" by simp
  have b: "\<not> digit_before_upper (strip_slash ''/auth.info'')" by code_simp
  from a b toolName_derivation [of "''/auth.info''" None, unfolded option.case]
  show ?thesis by blast
qed

lemma make_tool_name:
  "make_tool sp pathKey operation = Inr t \<Longrightarrow>
   name t = toolName_of pathKey (operationId operation)"
  by (auto simp: make_tool_def Let_def split: sum.splits)

lemma method_loop_names:
  "method_loop sp pathKey pathItem ms = Inr ts \<Longrightarrow>
   map name ts =
     map (\<lambda>opn. toolName_of pathKey (operationId opn)) (List.map_filter (map_of pathItem) ms)"
proof (induction ms arbitrary: ts)
  case Nil
  then show ?case by (simp add: List.map_filter_simps)
next
  case (Cons m ms)
  show ?case
  proof (cases "map_of pathItem m")
    case None
    with Cons show ?thesis by (simp add: List.map_filter_simps)
  next
    case (Some opn)
    with Cons.prems obtain t ts' where
      t: "make_tool sp pathKey opn = Inr t" and
      ts': "method_loop sp pathKey pathItem ms = Inr ts'" and
      ts: "ts = t # ts'"
      by (auto split: sum.splits)
    from Cons.IH [OF ts'] make_tool_name [OF t] Some ts
    show ?thesis by (simp add: List.map_filter_simps)
  qed
qed

lemma path_loop_names:
  "path_loop sp ps = Inr ts \<Longrightarrow>
   map name ts =
     map (\<lambda>(p, opn). toolName_of p (operationId opn))
       (concat (map (\<lambda>(pathKey, pathItem).
                       map (Pair pathKey) (List.map_filter (map_of pathItem) methods)) ps))"
proof (induction ps arbitrary: ts)
  case Nil
  then show ?case by simp
next
  case (Cons p ps)
  obtain pathKey pathItem where p: "p = (pathKey, pathItem)" by (cases p)
  with Cons.prems obtain ts1 ts2 where
    ts1: "method_loop sp pathKey pathItem methods = Inr ts1" and
    ts2: "path_loop sp ps = Inr ts2" and
    ts: "ts = ts1 @ ts2"
    by (auto split: sum.splits)
  from method_loop_names [OF ts1] Cons.IH [OF ts2] p ts
  show ?case by (simp add: comp_def)
qed

text \<open>
  C10, as stated, fails: nothing in \<open>generateTools\<close> keeps two operations from getting
  the same name. A path that answers both POST and GET without operation identifiers
  yields two tools named \<open>outline_x\<close>.
\<close>

theorem tool_names_collide:
  "map_sum id (map name) (generateTools two_methods_spec) = Inr [''outline_x'', ''outline_x'']
   \<and> \<not> distinct [''outline_x'', ''outline_x'']"
proof -
  have "map_sum id (map name) (generateTools two_methods_spec)
      = Inr [''outline_x'', ''outline_x'']"
    by code_simp
  then show ?thesis by simp
qed

text \<open>
  C10, amended. When generation succeeds, the names of the tools are, in order, the
  names derived from the identifier and the path of each operation alone
  (\<open>toolName_of\<close>); so the names are pairwise distinct exactly when these derived names
  are, which the generator does not enforce.
\<close>

theorem tool_names_derived:
  "generateTools sp = Inr tools \<Longrightarrow>
   map name tools = map (\<lambda>(p, opn). toolName_of p (operationId opn)) (operations_of sp)
   \<and> (distinct (map name tools) \<longleftrightarrow>
        distinct (map (\<lambda>(p, opn). toolName_of p (operationId opn)) (operations_of sp)))"
  using path_loop_names [of sp "paths sp" tools]
  by (simp add: generateTools_def operations_of_def)

theorem tool_names_derived_witness:
  "generateTools two_methods_spec =
     Inr [\<lparr> name = ''outline_x'', title = ''outline_x'', tool_description = [],
             methodName = ''x'', inputSchema = ZObject [] Strict, outputSchema = None,
             tool_annotations =
               \<lparr> readOnlyHint = False, destructiveHint = False, idempotentHint = False,
                 openWorldHint = True \<rparr> \<rparr>,
           \<lparr> name = ''outline_x'', title = ''outline_x'', tool_description = [],
             methodName = ''x'', inputSchema = ZObject [] Strict, outputSchema = None,
             tool_annotations =
               \<lparr> readOnlyHint = False, destructiveHint = False, idempotentHint = False,
                 openWorldHint = True \<rparr> \<rparr>]
   \<and> map (\<lambda>(p, opn). toolName_of p (operationId opn)) (operations_of two_methods_spec)
       = [''outline_x'', ''outline_x'']"
proof -
  have g: "generateTools two_methods_spec =
     Inr [\<lparr> name = ''outline_x'', title = ''outline_x'', tool_description = [],
             methodName = ''x'', inputSchema = ZObject [] Strict, outputSchema = None,
             tool_annotations =
               \<lparr> readOnlyHint = False, destructiveHint = False, idempotentHint = False,
                 openWorldHint = True \<rparr> \<rparr>,
           \<lparr> name = ''outline_x'', title = ''outline_x'', tool_description = [],
             methodName = ''x'', inputSchema = ZObject [] Strict, outputSchema = None,
             tool_annotations =
               \<lparr> readOnlyHint = False, destructiveHint = False, idempotentHint = False,
                 openWorldHint = True \<rparr> \<rparr>]"
    by code_simp
  from tool_names_derived [OF g] g show ?thesis by simp
qed

subsection \<open>Merging the branches of a composition\<close>

lemma Object_assign_Nil [simp]: "Object_assign t [] = t"
  by (simp add: Object_assign_def)

lemma Object_assign_Cons:
  "Object_assign t ((k, v) # s) = Object_assign (set_member k v t) s"
  by (simp add: Object_assign_def)

lemma merge_loop_resolve_branches:
  "merge_loop sp bs seenRefs depth ps rq =
     (case resolve_branches sp bs seenRefs depth of
        Inl e \<Rightarrow> Inl e
      | Inr (rs, seenRefs') \<Rightarrow>
          Inr (merged_schema (foldl Object_assign ps (map props_of rs))
                 (rq @ concat (map required_of rs)), seenRefs'))"
proof (induction bs arbitrary: seenRefs ps rq)
  case Nil
  show ?case by (simp add: merged_schema_def)
next
  case (Cons b bs)
  show ?case
  proof (cases "derefSchema sp b seenRefs (depth + 1)")
    case (Inl e)
    then show ?thesis by simp
  next
    case (Inr p)
    obtain r seen1 where p: "p = (r, seen1)" by (cases p)
    have ps: "(case properties r of Some x \<Rightarrow> Object_assign ps x | None \<Rightarrow> ps)
        = Object_assign ps (props_of r)"
      by (simp add: props_of_def split: option.splits)
    have rq: "(case required r of Some x \<Rightarrow> rq @ x | None \<Rightarrow> rq) = rq @ required_of r"
      by (simp add: required_of_def split: option.splits)
    show ?thesis
      using Inr p Cons.IH [of seen1 "Object_assign ps (props_of r)" "rq @ required_of r"]
      by (simp add: ps rq split: sum.splits prod.splits)
  qed
qed

lemma set_put_own: "set (put_own k v ps) \<subseteq> insert (k, v) (set ps)"
  by (induction ps) auto

lemma set_set_member: "set (set_member k v ps) \<subseteq> insert (k, v) (set ps)"
  using set_put_own [of k v ps] by (auto simp: set_member_def)

lemma set_Object_assign: "set (Object_assign t s) \<subseteq> set t \<union> set s"
proof (induction s arbitrary: t)
  case Nil
  show ?case by simp
next
  case (Cons p s)
  obtain k v where p: "p = (k, v)" by (cases p)
  have "set (Object_assign t (p # s)) \<subseteq> set (set_member k v t) \<union> set s"
    using Cons [of "set_member k v t"] p by (simp add: Object_assign_Cons)
  with set_set_member [of k v t] p show ?case by auto
qed

lemma map_of_put_own: "map_of (put_own k v ps) = (map_of ps)(k \<mapsto> v)"
  by (induction ps) (auto simp: fun_eq_iff)

lemma keys_put_own: "fst ` set (put_own k v ps) = insert k (fst ` set ps)"
  by (induction ps) auto

lemma length_put_own: "k \<notin> fst ` set ps \<Longrightarrow> length (put_own k v ps) = Suc (length ps)"
  by (induction ps) auto

lemma Object_assign_length:
  "distinct (map fst s) \<Longrightarrow> fst ` set s \<inter> fst ` set t = {} \<Longrightarrow> ''__proto__'' \<notin> fst ` set s \<Longrightarrow>
   length (Object_assign t s) = length t + length s"
proof (induction s arbitrary: t)
  case Nil
  show ?case by simp
next
  case (Cons p s)
  obtain k v where p: "p = (k, v)" by (cases p)
  from Cons.prems p have fresh: "k \<notin> fst ` set t" and k: "k \<noteq> ''__proto__''"
    and d: "distinct (map fst s)" and ks: "k \<notin> fst ` set s"
    and np: "''__proto__'' \<notin> fst ` set s"
    by auto
  from Cons.prems(2) p ks have "fst ` set s \<inter> fst ` set (put_own k v t) = {}"
    by (auto simp: keys_put_own)
  from Cons.IH [OF d this np] have "length (Object_assign (put_own k v t) s)
      = length (put_own k v t) + length s" .
  with fresh k p show ?case
    by (simp add: Object_assign_Cons set_member_def length_put_own)
qed

lemma map_of_Object_assign:
  "distinct (map fst s) \<Longrightarrow> ''__proto__'' \<notin> fst ` set s \<Longrightarrow>
   map_of (Object_assign t s) = map_of t ++ map_of s"
proof (induction s arbitrary: t)
  case Nil
  show ?case by simp
next
  case (Cons p s)
  obtain k v where p: "p = (k, v)" by (cases p)
  from Cons.prems p have d: "distinct (map fst s)" and k: "k \<notin> fst ` set s"
    and kp: "k \<noteq> ''__proto__''" and np: "''__proto__'' \<notin> fst ` set s" by auto
  have "map_of (Object_assign t (p # s)) = map_of (put_own k v t) ++ map_of s"
    using p kp Cons.IH [OF d np, of "put_own k v t"]
    by (simp add: Object_assign_Cons set_member_def)
  also have "\<dots> = (map_of t)(k \<mapsto> v) ++ map_of s"
    by (simp only: map_of_put_own)
  also have "\<dots> = map_of t ++ map_of (p # s)"
  proof (rule ext)
    fix x
    from k have "map_of s k = None" by (simp add: map_of_eq_None_iff)
    then show "((map_of t)(k \<mapsto> v) ++ map_of s) x = (map_of t ++ map_of (p # s)) x"
      using p by (cases "map_of s x") (auto simp: map_add_def)
  qed
  finally show ?case .
qed

text \<open>
  \<open>Object.assign\<close> keeps the place of a name that the target has, puts a new array index
  in front of the other names in ascending order, appends any other new name, and
  writes no property \<open>__proto__\<close>.
\<close>

lemma Object_assign_order:
  "Object_assign [(''b'', 1::nat)] [(''1'', 2), (''a'', 3), (''0'', 4), (''b'', 5), (''__proto__'', 6),
      (''01'', 7), (''10'', 8), (''2'', 9)]
   = [(''0'', 4), (''1'', 2), (''2'', 9), (''10'', 8), (''b'', 5), (''a'', 3), (''01'', 7)]"
  by code_simp

lemma case_snoc:
  "(case xs @ [x] of [] \<Rightarrow> a | y # ys \<Rightarrow> g (y # ys)) = g (xs @ [x])"
  by (cases xs) auto

lemma last_wins:
  "\<forall>r \<in> set rs. distinct (map fst (props_of r)) \<and> ''__proto__'' \<notin> fst ` set (props_of r) \<Longrightarrow>
   map_of (foldl Object_assign ps (map props_of rs)) k =
     (case filter (\<lambda>r. k \<in> fst ` set (props_of r)) rs of
        [] \<Rightarrow> map_of ps k
      | defs \<Rightarrow> map_of (props_of (last defs)) k)"
proof (induction rs rule: rev_induct)
  case Nil
  show ?case by simp
next
  case (snoc r rs)
  then have IH: "map_of (foldl Object_assign ps (map props_of rs)) k =
     (case filter (\<lambda>r. k \<in> fst ` set (props_of r)) rs of
        [] \<Rightarrow> map_of ps k
      | defs \<Rightarrow> map_of (props_of (last defs)) k)"
    and d: "distinct (map fst (props_of r))"
    and np: "''__proto__'' \<notin> fst ` set (props_of r)" by auto
  have step: "map_of (foldl Object_assign ps (map props_of (rs @ [r]))) k =
      (map_of (foldl Object_assign ps (map props_of rs)) ++ map_of (props_of r)) k"
    using d np by (simp add: map_of_Object_assign)
  show ?case
  proof (cases "k \<in> fst ` set (props_of r)")
    case True
    then obtain v where v: "map_of (props_of r) k = Some v"
      by (cases "map_of (props_of r) k") (auto simp: map_of_eq_None_iff)
    have "filter (\<lambda>r. k \<in> fst ` set (props_of r)) (rs @ [r])
        = filter (\<lambda>r. k \<in> fst ` set (props_of r)) rs @ [r]"
      using True by simp
    then have "(case filter (\<lambda>r. k \<in> fst ` set (props_of r)) (rs @ [r]) of
        [] \<Rightarrow> map_of ps k
      | defs \<Rightarrow> map_of (props_of (last defs)) k) = map_of (props_of r) k"
      by (simp only: case_snoc [where g = "\<lambda>defs. map_of (props_of (last defs)) k"] last_snoc)
    with step v show ?thesis by (simp add: map_add_def)
  next
    case False
    then have "map_of (props_of r) k = None" by (simp add: map_of_eq_None_iff)
    with False IH step show ?thesis
      by (simp add: map_add_def)
  qed
qed

lemma mergeAllOfSchemas_resolve_branches:
  assumes "mergeAllOfSchemas sp branches seenRefs depth = Inr (m, seenRefs')"
  obtains rs where
    "resolve_branches sp branches seenRefs depth = Inr (rs, seenRefs')"
    "m = merged_schema (foldl Object_assign [] (map props_of rs)) (concat (map required_of rs))"
  using assms
  by (auto simp: mergeAllOfSchemas_def merge_loop_resolve_branches split: sum.splits)

lemma derefSchema_allOf:
  "allOf s = Some branches \<Longrightarrow> ref s = None \<or> ref s = Some [] \<Longrightarrow> depth \<le> MAX_SCHEMA_DEPTH \<Longrightarrow>
   derefSchema sp s seenRefs depth = mergeAllOfSchemas sp branches seenRefs depth"
  by (auto simp: mergeAllOfSchemas_def derefSchema.simps)

text \<open>
  When the branches of a composition merge without an error, every branch has been
  resolved at \<open>depth + 1\<close> (\<open>resolve_branches\<close>) and the result is typed \<open>object\<close>; its
  required names are the branches' lists concatenated, duplicates kept (the member is
  absent when the concatenation is empty). Where no resolved branch declares a
  property named \<open>__proto__\<close>, a name has the definition of the last branch that declares
  it, and two branches with disjoint property names give as many properties as both
  have together.
\<close>

lemma merge_of_branches:
  assumes "mergeAllOfSchemas sp branches seenRefs depth = Inr (m, seenRefs')"
  shows "\<exists>rs. resolve_branches sp branches seenRefs depth = Inr (rs, seenRefs')
     \<and> type m = Some ''object''
     \<and> properties m = Some (foldl Object_assign [] (map props_of rs))
     \<and> required m =
         (if concat (map required_of rs) = [] then None
          else Some (concat (map required_of rs)))
     \<and> ((\<forall>r \<in> set rs. distinct (map fst (props_of r))
            \<and> ''__proto__'' \<notin> fst ` set (props_of r)) \<longrightarrow>
          (\<forall>k. map_of (props_of m) k =
             (case filter (\<lambda>r. k \<in> fst ` set (props_of r)) rs of
                [] \<Rightarrow> None
              | defs \<Rightarrow> map_of (props_of (last defs)) k)))
     \<and> (\<forall>r1 r2. rs = [r1, r2] \<and> distinct (map fst (props_of r1))
            \<and> distinct (map fst (props_of r2))
            \<and> ''__proto__'' \<notin> fst ` set (props_of r1)
            \<and> ''__proto__'' \<notin> fst ` set (props_of r2)
            \<and> fst ` set (props_of r1) \<inter> fst ` set (props_of r2) = {} \<longrightarrow>
          length (props_of m) = length (props_of r1) + length (props_of r2))
     \<and> (allOf s = Some branches \<and> (ref s = None \<or> ref s = Some [])
          \<and> depth \<le> MAX_SCHEMA_DEPTH \<longrightarrow>
          derefSchema sp s seenRefs depth = Inr (m, seenRefs'))"
proof -
  from assms obtain rs where
    rs: "resolve_branches sp branches seenRefs depth = Inr (rs, seenRefs')" and
    m: "m = merged_schema (foldl Object_assign [] (map props_of rs))
              (concat (map required_of rs))"
    by (rule mergeAllOfSchemas_resolve_branches)
  have t: "type m = Some ''object''"
    by (simp add: m merged_schema_def)
  have p: "properties m = Some (foldl Object_assign [] (map props_of rs))"
    by (simp add: m merged_schema_def)
  have q: "required m =
         (if concat (map required_of rs) = [] then None
          else Some (concat (map required_of rs)))"
    by (simp add: m merged_schema_def)
  have pm: "props_of m = foldl Object_assign [] (map props_of rs)"
    by (simp add: props_of_def p)
  have w: "(\<forall>r \<in> set rs. distinct (map fst (props_of r))
            \<and> ''__proto__'' \<notin> fst ` set (props_of r)) \<longrightarrow>
          (\<forall>k. map_of (props_of m) k =
             (case filter (\<lambda>r. k \<in> fst ` set (props_of r)) rs of
                [] \<Rightarrow> None
              | defs \<Rightarrow> map_of (props_of (last defs)) k))"
  proof (intro impI allI)
    fix k
    assume "\<forall>r \<in> set rs. distinct (map fst (props_of r))
            \<and> ''__proto__'' \<notin> fst ` set (props_of r)"
    from last_wins [OF this, of "[]" k]
    show "map_of (props_of m) k =
             (case filter (\<lambda>r. k \<in> fst ` set (props_of r)) rs of
                [] \<Rightarrow> None
              | defs \<Rightarrow> map_of (props_of (last defs)) k)"
      by (simp add: pm cong: list.case_cong)
  qed
  have two: "length (props_of m) = length (props_of r1) + length (props_of r2)"
    if "rs = [r1, r2]" "distinct (map fst (props_of r1))" "distinct (map fst (props_of r2))"
       "''__proto__'' \<notin> fst ` set (props_of r1)" "''__proto__'' \<notin> fst ` set (props_of r2)"
       "fst ` set (props_of r1) \<inter> fst ` set (props_of r2) = {}" for r1 r2
  proof -
    have a: "length (Object_assign [] (props_of r1)) = length (props_of r1)"
      using Object_assign_length [OF that(2) _ that(4), of "[]"] by simp
    have k: "fst ` set (Object_assign [] (props_of r1)) \<subseteq> fst ` set (props_of r1)"
      using set_Object_assign [of "[]" "props_of r1"] by auto
    with that(6) have "fst ` set (props_of r2) \<inter> fst ` set (Object_assign [] (props_of r1)) = {}"
      by blast
    from Object_assign_length [OF that(3) this that(5)] a that(1) show ?thesis
      by (simp add: pm)
  qed
  have d: "allOf s = Some branches \<and> (ref s = None \<or> ref s = Some [])
          \<and> depth \<le> MAX_SCHEMA_DEPTH \<longrightarrow>
          derefSchema sp s seenRefs depth = Inr (m, seenRefs')"
    using derefSchema_allOf [of s branches depth sp seenRefs] assms by metis
  from rs t p q w two d show ?thesis by blast
qed

lemma merge_of_branches_example:
  "mergeAllOfSchemas abc_spec [ref_A, ref_B] {} 0 =
     Inr (merged_schema [(''id'', typed_schema ''string''), (''name'', typed_schema ''string'')]
            [''id'', ''name''],
          {''#/components/schemas/A'', ''#/components/schemas/B''})
   \<and> mergeAllOfSchemas abc_spec [ref_A, ref_C] {} 0 =
     Inr (merged_schema [(''id'', typed_schema ''number'')] [''id'', ''id''],
          {''#/components/schemas/A'', ''#/components/schemas/C''})"
proof -
  have e1: "mergeAllOfSchemas abc_spec [ref_A, ref_B] {} 0 =
     Inr (merged_schema [(''id'', typed_schema ''string''), (''name'', typed_schema ''string'')]
            [''id'', ''name''],
          {''#/components/schemas/A'', ''#/components/schemas/B''})"
    by code_simp
  have e2: "mergeAllOfSchemas abc_spec [ref_A, ref_C] {} 0 =
     Inr (merged_schema [(''id'', typed_schema ''number'')] [''id'', ''id''],
          {''#/components/schemas/A'', ''#/components/schemas/C''})"
    by code_simp
  from e1 e2 show ?thesis by blast
qed

text \<open>
  C3 does not hold of \<open>mergeAllOfSchemas\<close> for a property named \<open>__proto__\<close>, which the
  YAML parser reads as an own property of the property map: \<open>Object.assign\<close> writes it
  through the setter of \<open>Object.prototype\<close>, and the merged map has no such property.
  The two branches below have the disjoint property sets \<open>id\<close> and \<open>__proto__\<close>, one
  property each; the merged schema has the one property \<open>id\<close>, not two, and the
  definition of \<open>__proto__\<close> in the last branch that declares it is lost.
\<close>

theorem allOf_merge_loses_proto:
  "resolve_branches example_spec [part_A, proto_part] {} 0 = Inr ([part_A, proto_part], {})
   \<and> map fst (props_of part_A) = [''id'']
   \<and> map fst (props_of proto_part) = [''__proto__'']
   \<and> mergeAllOfSchemas example_spec [part_A, proto_part] {} 0 =
       Inr (merged_schema [(''id'', typed_schema ''string'')] [''id''], {})
   \<and> length (props_of (merged_schema [(''id'', typed_schema ''string'')] [''id''])) = 1
   \<and> length (props_of part_A) + length (props_of proto_part) = 2
   \<and> map_of (props_of proto_part) ''__proto__'' = Some (typed_schema ''string'')
   \<and> map_of (props_of (merged_schema [(''id'', typed_schema ''string'')] [''id'']))
        ''__proto__'' = None"
proof -
  have a: "resolve_branches example_spec [part_A, proto_part] {} 0
      = Inr ([part_A, proto_part], {})"
    by code_simp
  have b: "mergeAllOfSchemas example_spec [part_A, proto_part] {} 0 =
       Inr (merged_schema [(''id'', typed_schema ''string'')] [''id''], {})"
    by code_simp
  have c: "map fst (props_of part_A) = [''id'']"
    "map fst (props_of proto_part) = [''__proto__'']"
    "length (props_of (merged_schema [(''id'', typed_schema ''string'')] [''id''])) = 1"
    "length (props_of part_A) + length (props_of proto_part) = 2"
    "map_of (props_of proto_part) ''__proto__'' = Some (typed_schema ''string'')"
    "map_of (props_of (merged_schema [(''id'', typed_schema ''string'')] [''id'']))
        ''__proto__'' = None"
    by (simp_all add: props_of_def part_A_def proto_part_def object_schema_def
        merged_schema_def)
  from a b c show ?thesis by blast
qed

subsection \<open>Termination, cycles and depth\<close>

lemma derefSchema_total: "derefSchema_merge_loop_dom x"
proof -
  have "All derefSchema_merge_loop_dom"
    by (relation "inv_image (less_than <*lex*> less_than)
        (\<lambda>x. case x of
           Inl (sp, s, seenRefs, depth) \<Rightarrow> (10 - depth, 0)
         | Inr (sp, schemas, seenRefs, depth, ps, rs) \<Rightarrow> (9 - depth, Suc (length schemas)))")
     (auto simp: MAX_SCHEMA_DEPTH_def)
  then show ?thesis by blast
qed

lemma schemaToZodExpression_total: "schemaToZodExpression_compile_entries_dom x"
proof -
  have "All schemaToZodExpression_compile_entries_dom"
    by (relation "inv_image (less_than <*lex*> less_than)
        (\<lambda>x. case x of
           Inl (sp, s, m, depth, seenRefs) \<Rightarrow> (10 - depth, 0)
         | Inr (sp, entries, rs, m, depth, seenRefs) \<Rightarrow> (9 - depth, Suc (length entries)))")
     (auto simp: MAX_SCHEMA_DEPTH_def)
  then show ?thesis by blast
qed

lemma derefSchema_seen:
  "ref s = Some r \<Longrightarrow> r \<noteq> [] \<Longrightarrow> r \<in> seenRefs \<Longrightarrow>
   derefSchema sp s seenRefs depth = Inr (empty_schema, seenRefs)"
  by (simp add: derefSchema.simps)

lemma derefSchema_deep:
  "depth > MAX_SCHEMA_DEPTH \<Longrightarrow> derefSchema sp s seenRefs depth = Inr (empty_schema, seenRefs)"
  by (simp add: derefSchema.simps)

lemma compile_deep:
  "depth > MAX_SCHEMA_DEPTH \<Longrightarrow> schemaToZodExpression sp s m depth seenRefs = Inr ZAny"
  by (simp add: schemaToZodExpression.simps derefSchema_deep)

text \<open>
  C4. Resolution terminates on every input: the recursion of \<open>derefSchema\<close> with the
  loop of \<open>mergeAllOfSchemas\<close>, and that of \<open>schemaToZodExpression\<close>, are well-founded
  from every argument (the domain predicates of the two definitions hold everywhere),
  whatever the references of the document point to. A reference that is already in the
  set of seen references resolves to the empty schema without a lookup, and so does
  every schema at a depth above \<open>MAX_SCHEMA_DEPTH = 8\<close>, which compiles to \<open>z.any()\<close>.
  A schema that refers to itself resolves to the empty schema and compiles to \<open>z.any()\<close>.
\<close>

theorem resolution_terminates:
  "derefSchema_merge_loop_dom (Inl (sp, s, seenRefs, depth))
   \<and> derefSchema_merge_loop_dom (Inr (sp, schemas, seenRefs, depth, ps, rs))
   \<and> schemaToZodExpression_compile_entries_dom (Inl (sp, s, m, depth, seenRefs))
   \<and> (ref s = Some r \<and> r \<noteq> [] \<and> r \<in> seenRefs \<longrightarrow>
        derefSchema sp s seenRefs depth = Inr (empty_schema, seenRefs))
   \<and> MAX_SCHEMA_DEPTH = 8
   \<and> (depth > 8 \<longrightarrow>
        derefSchema sp s seenRefs depth = Inr (empty_schema, seenRefs)
        \<and> schemaToZodExpression sp s m depth seenRefs = Inr ZAny)
   \<and> derefSchema self_ref_spec ref_A {} 0 = Inr (empty_schema, {''#/components/schemas/A''})
   \<and> schemaToZodExpression self_ref_spec ref_A Input 0 {} = Inr ZAny
   \<and> schemaToZodExpression self_ref_spec ref_A Output 0 {} = Inr ZAny"
proof -
  have a: "derefSchema self_ref_spec ref_A {} 0 = Inr (empty_schema, {''#/components/schemas/A''})"
    by code_simp
  have b: "schemaToZodExpression self_ref_spec ref_A Input 0 {} = Inr ZAny"
    by code_simp
  have c: "schemaToZodExpression self_ref_spec ref_A Output 0 {} = Inr ZAny"
    by code_simp
  have d: "MAX_SCHEMA_DEPTH = 8" by (simp add: MAX_SCHEMA_DEPTH_def)
  have e: "depth > 8 \<longrightarrow>
        derefSchema sp s seenRefs depth = Inr (empty_schema, seenRefs)
        \<and> schemaToZodExpression sp s m depth seenRefs = Inr ZAny"
    using derefSchema_deep [of depth sp s seenRefs] compile_deep [of depth sp s m seenRefs]
    by (simp add: d)
  have f: "ref s = Some r \<and> r \<noteq> [] \<and> r \<in> seenRefs \<longrightarrow>
        derefSchema sp s seenRefs depth = Inr (empty_schema, seenRefs)"
    using derefSchema_seen [of s r seenRefs sp depth] by blast
  from derefSchema_total schemaToZodExpression_total a b c d e f show ?thesis by blast
qed

theorem resolution_terminates_witness:
  "ref ref_A = Some ''#/components/schemas/A''
   \<and> ''#/components/schemas/A'' \<in> {''#/components/schemas/A''}
   \<and> derefSchema self_ref_spec ref_A {''#/components/schemas/A''} 1 =
       Inr (empty_schema, {''#/components/schemas/A''})
   \<and> (9::nat) > 8
   \<and> derefSchema self_ref_spec part_A {} 9 = Inr (empty_schema, {})
   \<and> schemaToZodExpression self_ref_spec part_A Input 9 {} = Inr ZAny"
proof -
  have r: "ref ref_A = Some ''#/components/schemas/A''"
    by (simp add: ref_A_def ref_schema_def)
  from r resolution_terminates [of self_ref_spec ref_A "{''#/components/schemas/A''}" 1
      _ _ _ _ "''#/components/schemas/A''"]
  have x: "derefSchema self_ref_spec ref_A {''#/components/schemas/A''} 1 =
       Inr (empty_schema, {''#/components/schemas/A''})"
    by blast
  have n: "(9::nat) > 8" by simp
  from n resolution_terminates [of self_ref_spec part_A "{}" 9 _ _ _ Input]
  have y: "derefSchema self_ref_spec part_A {} 9 = Inr (empty_schema, {})
     \<and> schemaToZodExpression self_ref_spec part_A Input 9 {} = Inr ZAny"
    by blast
  from r x y show ?thesis by simp
qed

subsection \<open>Seen references of sibling branches\<close>

text \<open>
  C9 does not hold of \<open>mergeAllOfSchemas\<close>: the loop hands the one mutable set to every
  branch, so a reference that one branch has resolved is in the cycle memory of the
  next. With \<open>A\<close> not cyclic, the branch \<open>$ref A\<close> alone resolves to \<open>A\<close>; as the second of
  two such branches it resolves to the empty schema; and a property \<open>parent: $ref A\<close>
  declared in a sibling branch of \<open>$ref A\<close> compiles to \<open>z.any()\<close>. The properties of one
  object do get a copy of the set each: two properties \<open>$ref A\<close> both compile to the
  validator of \<open>A\<close>.
\<close>

theorem allOf_branches_share_seenRefs:
  "derefSchema shared_spec ref_A {} 1 = Inr (part_A, {''#/components/schemas/A''})
   \<and> resolve_branches shared_spec [ref_A, ref_A] {} 0 =
       Inr ([part_A, empty_schema], {''#/components/schemas/A''})
   \<and> schemaToZodExpression shared_spec
        (allOf_schema [ref_A, object_schema [(''parent'', ref_A)] []]) Input 0 {} =
       Inr (ZObject [(''id'', ZString), (''parent'', ZOptional ZAny)] Strict)
   \<and> schemaToZodExpression shared_spec
        (object_schema [(''first'', ref_A), (''second'', ref_A)] []) Input 0 {} =
       Inr (ZObject [(''first'', ZOptional (ZObject [(''id'', ZString)] Strict)),
                     (''second'', ZOptional (ZObject [(''id'', ZString)] Strict))] Strict)"
proof -
  have "derefSchema shared_spec ref_A {} 1 = Inr (part_A, {''#/components/schemas/A''})"
    by code_simp
  moreover have "resolve_branches shared_spec [ref_A, ref_A] {} 0 =
       Inr ([part_A, empty_schema], {''#/components/schemas/A''})"
    by code_simp
  moreover have "schemaToZodExpression shared_spec
        (allOf_schema [ref_A, object_schema [(''parent'', ref_A)] []]) Input 0 {} =
       Inr (ZObject [(''id'', ZString), (''parent'', ZOptional ZAny)] Strict)"
    by code_simp
  moreover have "schemaToZodExpression shared_spec
        (object_schema [(''first'', ref_A), (''second'', ref_A)] []) Input 0 {} =
       Inr (ZObject [(''first'', ZOptional (ZObject [(''id'', ZString)] Strict)),
                     (''second'', ZOptional (ZObject [(''id'', ZString)] Strict))] Strict)"
    by code_simp
  ultimately show ?thesis by blast
qed

subsection \<open>Objects under the input mode\<close>

lemma derefSchema_resolved:
  "resolved_schema s \<Longrightarrow> depth \<le> MAX_SCHEMA_DEPTH \<Longrightarrow>
   derefSchema sp s seenRefs depth = Inr (s, seenRefs)"
  by (auto simp: derefSchema.simps resolved_schema_def)

lemma accepts_finish:
  "accepts (finish s x) v \<longleftrightarrow> accepts x v \<or> (nullable s \<and> v = Some JNull)"
  by (auto simp: finish_def Let_def)

lemma compile_object:
  assumes "resolved_schema s" "is_object_schema s" "depth \<le> MAX_SCHEMA_DEPTH"
  shows "schemaToZodExpression sp s m depth seenRefs =
     (case compile_entries sp (props_of s) (required_of s) m depth seenRefs of
        Inl e \<Rightarrow> Inl e
      | Inr entries \<Rightarrow>
          if m = Output then Inr (finish s (ZObject entries Passthrough))
          else (case additionalProperties s of
                  AP_schema a \<Rightarrow>
                    (case schemaToZodExpression sp a m (depth + 1) seenRefs of
                       Inl e \<Rightarrow> Inl e
                     | Inr c \<Rightarrow> Inr (finish s (ZObject entries (Catchall c))))
                | AP_bool b \<Rightarrow>
                    if b then Inr (finish s (ZObject entries Passthrough))
                    else Inr (finish s (ZObject entries Strict))
                | AP_absent \<Rightarrow> Inr (finish s (ZObject entries Strict))))"
proof -
  have o: "oneOf s = None" "anyOf s = None"
    using assms(1) by (simp_all add: resolved_schema_def)
  have t: "(type s = Some ''object'' \<or> properties s \<noteq> None) = True"
    using assms(2) by (simp add: is_object_schema_def)
  have d: "\<not> MAX_SCHEMA_DEPTH < depth" using assms(3) by simp
  show ?thesis
    by (subst schemaToZodExpression.simps)
       (simp only: derefSchema_resolved [OF assms(1,3)] o t d props_of_def required_of_def
          sum.case prod.case if_True if_False simp_thms)
qed

lemma compile_entries_keys:
  "compile_entries sp ps rq m depth seenRefs = Inr entries \<Longrightarrow> map fst entries = map fst ps"
proof (induction ps arbitrary: entries)
  case Nil
  then show ?case by simp
next
  case (Cons p ps)
  obtain k s where p: "p = (k, s)" by (cases p)
  from Cons.prems p obtain pe es where
    "compile_entries sp ps rq m depth seenRefs = Inr es" "map fst entries = k # map fst es"
    by (auto split: sum.splits)
  with Cons.IH p show ?case by simp
qed

lemma compile_entries_optional:
  "compile_entries sp ps rq m depth seenRefs = Inr entries \<Longrightarrow>
   (k, pe) \<in> set entries \<Longrightarrow> k \<notin> set rq \<Longrightarrow>
   \<exists>s x. (k, s) \<in> set ps \<and> schemaToZodExpression sp s m (depth + 1) seenRefs = Inr x
     \<and> pe = (if m = Output then ZNullable (ZOptional x) else ZOptional x)"
proof (induction ps arbitrary: entries)
  case Nil
  then show ?case by simp
next
  case (Cons p ps)
  obtain k' s' where p: "p = (k', s')" by (cases p)
  from Cons.prems(1) p obtain x es where
    x: "schemaToZodExpression sp s' m (depth + 1) seenRefs = Inr x" and
    es: "compile_entries sp ps rq m depth seenRefs = Inr es" and
    entries: "entries = (k', if k' \<notin> set rq
                     then (if m = Output then ZNullable (ZOptional x) else ZOptional x)
                     else x) # es"
    by (auto split: sum.splits)
  show ?case
  proof (cases "(k, pe) \<in> set es")
    case True
    from Cons.IH [OF es True Cons.prems(3)] obtain s x where
      "(k, s) \<in> set ps" "schemaToZodExpression sp s m (depth + 1) seenRefs = Inr x"
      "pe = (if m = Output then ZNullable (ZOptional x) else ZOptional x)"
      by blast
    then have "(k, s) \<in> set (p # ps) \<and> schemaToZodExpression sp s m (depth + 1) seenRefs = Inr x
      \<and> pe = (if m = Output then ZNullable (ZOptional x) else ZOptional x)"
      by simp
    then show ?thesis by blast
  next
    case False
    with Cons.prems(2,3) entries have "k = k'"
      "pe = (if m = Output then ZNullable (ZOptional x) else ZOptional x)"
      by (auto split: if_splits)
    with x p have "(k, s') \<in> set (p # ps)
      \<and> schemaToZodExpression sp s' m (depth + 1) seenRefs = Inr x
      \<and> pe = (if m = Output then ZNullable (ZOptional x) else ZOptional x)"
      by simp
    then show ?thesis by blast
  qed
qed

lemma known_keys_iff:
  "list_all (\<lambda>(k, x). k \<in> fst ` set entries) fs \<longleftrightarrow> fst ` set fs \<subseteq> fst ` set entries"
  by (force simp: list_all_iff)

lemma accepts_strict:
  "accepts (ZObject entries Strict) (Some (JObj fs)) \<longleftrightarrow>
     (\<forall>(k, pe) \<in> set entries. accepts pe (map_of fs k)) \<and> fst ` set fs \<subseteq> fst ` set entries"
  by (simp add: known_keys_iff) (simp add: list_all_iff)

lemma accepts_passthrough:
  "accepts (ZObject entries Passthrough) (Some (JObj fs)) \<longleftrightarrow>
     (\<forall>(k, pe) \<in> set entries. accepts pe (map_of fs k))"
  by (auto simp: list_all_iff)

lemma accepts_catchall:
  "accepts (ZObject entries (Catchall c)) (Some (JObj fs)) \<longleftrightarrow>
     (\<forall>(k, pe) \<in> set entries. accepts pe (map_of fs k))
     \<and> (\<forall>(k, v) \<in> set fs. k \<notin> fst ` set entries \<longrightarrow> accepts c (Some v))"
  by (auto simp: list_all_iff)

lemma ex_in: "schemaToZodExpression sp part_A Input 0 seenRefs = Inr (ZObject [(''id'', ZString)] Strict)"
  by (simp add: schemaToZodExpression.simps derefSchema.simps part_A_def object_schema_def
      typed_schema_def MAX_SCHEMA_DEPTH_def finish_def descriptionParts_def string_expression_def)

lemma ex_out: "schemaToZodExpression sp part_A Output 0 seenRefs = Inr (ZObject [(''id'', ZString)] Passthrough)"
  by (simp add: schemaToZodExpression.simps derefSchema.simps part_A_def object_schema_def
      typed_schema_def MAX_SCHEMA_DEPTH_def finish_def descriptionParts_def string_expression_def)

lemma finish_object:
  "accepts (finish s x) (Some (JObj fs)) \<longleftrightarrow> accepts x (Some (JObj fs))"
  by (simp add: accepts_finish)

lemma input_object_general:
  assumes "resolved_schema s" "is_object_schema s" "depth \<le> MAX_SCHEMA_DEPTH"
    and "schemaToZodExpression sp s Input depth seenRefs = Inr e"
  shows "\<exists>entries.
       compile_entries sp (props_of s) (required_of s) Input depth seenRefs = Inr entries
     \<and> map fst entries = map fst (props_of s)
     \<and> (additionalProperties s = AP_absent \<or> additionalProperties s = AP_bool False \<longrightarrow>
          e = finish s (ZObject entries Strict)
          \<and> (\<forall>fs. accepts e (Some (JObj fs)) \<longrightarrow> fst ` set fs \<subseteq> fst ` set (props_of s)))
     \<and> (additionalProperties s = AP_bool True \<longrightarrow>
          e = finish s (ZObject entries Passthrough)
          \<and> (\<forall>fs. accepts e (Some (JObj fs)) \<longleftrightarrow>
                (\<forall>(k, pe) \<in> set entries. accepts pe (map_of fs k))))
     \<and> (\<forall>a. additionalProperties s = AP_schema a \<longrightarrow>
          (\<exists>c. schemaToZodExpression sp a Input (depth + 1) seenRefs = Inr c
             \<and> e = finish s (ZObject entries (Catchall c))
             \<and> (\<forall>fs. accepts e (Some (JObj fs)) \<longleftrightarrow>
                   (\<forall>(k, pe) \<in> set entries. accepts pe (map_of fs k))
                   \<and> (\<forall>(k, v) \<in> set fs.
                        k \<notin> fst ` set (props_of s) \<longrightarrow> accepts c (Some v)))))"
proof -
  from assms(4) compile_object [OF assms(1-3), of sp Input seenRefs]
  obtain entries where
    entries: "compile_entries sp (props_of s) (required_of s) Input depth seenRefs = Inr entries"
    and e: "(case additionalProperties s of
                  AP_schema a \<Rightarrow>
                    (case schemaToZodExpression sp a Input (depth + 1) seenRefs of
                       Inl e \<Rightarrow> Inl e
                     | Inr c \<Rightarrow> Inr (finish s (ZObject entries (Catchall c))))
                | AP_bool b \<Rightarrow>
                    if b then Inr (finish s (ZObject entries Passthrough))
                    else Inr (finish s (ZObject entries Strict))
                | AP_absent \<Rightarrow> Inr (finish s (ZObject entries Strict))) = Inr e"
    by (auto split: sum.splits)
  have keys: "map fst entries = map fst (props_of s)"
    using entries by (rule compile_entries_keys)
  then have keys': "fst ` set entries = fst ` set (props_of s)"
    by (metis list.set_map)
  have strict: "additionalProperties s = AP_absent \<or> additionalProperties s = AP_bool False \<longrightarrow>
          e = finish s (ZObject entries Strict)
          \<and> (\<forall>fs. accepts e (Some (JObj fs)) \<longrightarrow> fst ` set fs \<subseteq> fst ` set (props_of s))"
  proof
    assume "additionalProperties s = AP_absent \<or> additionalProperties s = AP_bool False"
    with e have "e = finish s (ZObject entries Strict)" by auto
    then show "e = finish s (ZObject entries Strict)
          \<and> (\<forall>fs. accepts e (Some (JObj fs)) \<longrightarrow> fst ` set fs \<subseteq> fst ` set (props_of s))"
      by (simp only: finish_object accepts_strict keys') simp
  qed
  have pass: "additionalProperties s = AP_bool True \<longrightarrow>
          e = finish s (ZObject entries Passthrough)
          \<and> (\<forall>fs. accepts e (Some (JObj fs)) \<longleftrightarrow>
                (\<forall>(k, pe) \<in> set entries. accepts pe (map_of fs k)))"
  proof
    assume "additionalProperties s = AP_bool True"
    with e have "e = finish s (ZObject entries Passthrough)" by auto
    then show "e = finish s (ZObject entries Passthrough)
          \<and> (\<forall>fs. accepts e (Some (JObj fs)) \<longleftrightarrow>
                (\<forall>(k, pe) \<in> set entries. accepts pe (map_of fs k)))"
      by (simp only: finish_object accepts_passthrough) simp
  qed
  have catch: "\<forall>a. additionalProperties s = AP_schema a \<longrightarrow>
          (\<exists>c. schemaToZodExpression sp a Input (depth + 1) seenRefs = Inr c
             \<and> e = finish s (ZObject entries (Catchall c))
             \<and> (\<forall>fs. accepts e (Some (JObj fs)) \<longleftrightarrow>
                   (\<forall>(k, pe) \<in> set entries. accepts pe (map_of fs k))
                   \<and> (\<forall>(k, v) \<in> set fs.
                        k \<notin> fst ` set (props_of s) \<longrightarrow> accepts c (Some v))))"
  proof (intro allI impI)
    fix a
    assume "additionalProperties s = AP_schema a"
    with e obtain c where
      c: "schemaToZodExpression sp a Input (depth + 1) seenRefs = Inr c" and
      ec: "e = finish s (ZObject entries (Catchall c))"
      by (auto split: sum.splits)
    have "\<forall>fs. accepts e (Some (JObj fs)) \<longleftrightarrow>
                   (\<forall>(k, pe) \<in> set entries. accepts pe (map_of fs k))
                   \<and> (\<forall>(k, v) \<in> set fs.
                        k \<notin> fst ` set (props_of s) \<longrightarrow> accepts c (Some v))"
      by (simp only: ec finish_object accepts_catchall keys') simp
    with c ec show "\<exists>c. schemaToZodExpression sp a Input (depth + 1) seenRefs = Inr c
             \<and> e = finish s (ZObject entries (Catchall c))
             \<and> (\<forall>fs. accepts e (Some (JObj fs)) \<longleftrightarrow>
                   (\<forall>(k, pe) \<in> set entries. accepts pe (map_of fs k))
                   \<and> (\<forall>(k, v) \<in> set fs.
                        k \<notin> fst ` set (props_of s) \<longrightarrow> accepts c (Some v)))"
      by blast
  qed
  from entries keys strict pass catch show ?thesis by blast
qed

text \<open>
  C1. A resolved object schema that compiles under the input mode (at a depth within
  the bound) compiles to an object validator over exactly the declared properties.
  When \<open>additionalProperties\<close> is absent or false the validator is strict: every object
  it accepts has declared properties only. When it is \<open>true\<close> unknown properties are
  unrestricted: acceptance depends on the declared properties alone. When it is a
  schema, every unknown property must be accepted by the validator compiled from that
  schema. The object schema with the one required string property \<open>id\<close> compiles to a
  validator that rejects \<open>{"id":"x","extra":1}\<close> and \<open>{}\<close> and accepts \<open>{"id":"x"}\<close>.
\<close>

theorem input_object_unknown_properties:
  "(resolved_schema s \<and> is_object_schema s \<and> depth \<le> MAX_SCHEMA_DEPTH
      \<and> schemaToZodExpression sp s Input depth seenRefs = Inr e \<longrightarrow>
    (\<exists>entries.
       compile_entries sp (props_of s) (required_of s) Input depth seenRefs = Inr entries
     \<and> map fst entries = map fst (props_of s)
     \<and> (additionalProperties s = AP_absent \<or> additionalProperties s = AP_bool False \<longrightarrow>
          e = finish s (ZObject entries Strict)
          \<and> (\<forall>fs. accepts e (Some (JObj fs)) \<longrightarrow> fst ` set fs \<subseteq> fst ` set (props_of s)))
     \<and> (additionalProperties s = AP_bool True \<longrightarrow>
          e = finish s (ZObject entries Passthrough)
          \<and> (\<forall>fs. accepts e (Some (JObj fs)) \<longleftrightarrow>
                (\<forall>(k, pe) \<in> set entries. accepts pe (map_of fs k))))
     \<and> (\<forall>a. additionalProperties s = AP_schema a \<longrightarrow>
          (\<exists>c. schemaToZodExpression sp a Input (depth + 1) seenRefs = Inr c
             \<and> e = finish s (ZObject entries (Catchall c))
             \<and> (\<forall>fs. accepts e (Some (JObj fs)) \<longleftrightarrow>
                   (\<forall>(k, pe) \<in> set entries. accepts pe (map_of fs k))
                   \<and> (\<forall>(k, v) \<in> set fs.
                        k \<notin> fst ` set (props_of s) \<longrightarrow> accepts c (Some v)))))))
   \<and> schemaToZodExpression sp part_A Input 0 seenRefs = Inr (ZObject [(''id'', ZString)] Strict)
   \<and> \<not> accepts (ZObject [(''id'', ZString)] Strict)
         (Some (JObj [(''id'', JStr ''x''), (''extra'', JNum 1)]))
   \<and> \<not> accepts (ZObject [(''id'', ZString)] Strict) (Some (JObj []))
   \<and> accepts (ZObject [(''id'', ZString)] Strict) (Some (JObj [(''id'', JStr ''x'')]))"
proof -
  have a: "schemaToZodExpression sp part_A Input 0 seenRefs
      = Inr (ZObject [(''id'', ZString)] Strict)"
    by (rule ex_in)
  have b: "\<not> accepts (ZObject [(''id'', ZString)] Strict)
         (Some (JObj [(''id'', JStr ''x''), (''extra'', JNum 1)]))"
    by simp
  have c: "\<not> accepts (ZObject [(''id'', ZString)] Strict) (Some (JObj []))"
    by simp
  have d: "accepts (ZObject [(''id'', ZString)] Strict) (Some (JObj [(''id'', JStr ''x'')]))"
    by simp
  from input_object_general [of s depth sp seenRefs e] a b c d show ?thesis by blast
qed

theorem input_object_unknown_properties_witness:
  "resolved_schema part_A \<and> is_object_schema part_A \<and> (0::nat) \<le> MAX_SCHEMA_DEPTH
   \<and> schemaToZodExpression example_spec part_A Input 0 {} =
       Inr (ZObject [(''id'', ZString)] Strict)
   \<and> additionalProperties part_A = AP_absent
   \<and> \<not> accepts (ZObject [(''id'', ZString)] Strict)
         (Some (JObj [(''id'', JStr ''x''), (''extra'', JNum 1)]))
   \<and> resolved_schema (with_additional (AP_bool True) part_A)
   \<and> is_object_schema (with_additional (AP_bool True) part_A)
   \<and> schemaToZodExpression example_spec (with_additional (AP_bool True) part_A) Input 0 {} =
       Inr (ZObject [(''id'', ZString)] Passthrough)
   \<and> accepts (ZObject [(''id'', ZString)] Passthrough)
         (Some (JObj [(''id'', JStr ''x''), (''extra'', JNum 1)]))
   \<and> resolved_schema (with_additional (AP_schema (typed_schema ''number'')) part_A)
   \<and> is_object_schema (with_additional (AP_schema (typed_schema ''number'')) part_A)
   \<and> schemaToZodExpression example_spec
        (with_additional (AP_schema (typed_schema ''number'')) part_A) Input 0 {} =
       Inr (ZObject [(''id'', ZString)] (Catchall ZNumber))
   \<and> accepts (ZObject [(''id'', ZString)] (Catchall ZNumber))
         (Some (JObj [(''id'', JStr ''x''), (''extra'', JNum 1)]))
   \<and> \<not> accepts (ZObject [(''id'', ZString)] (Catchall ZNumber))
         (Some (JObj [(''id'', JStr ''x''), (''extra'', JStr ''y'')]))"
proof -
  have r1: "resolved_schema part_A" "is_object_schema part_A" "(0::nat) \<le> MAX_SCHEMA_DEPTH"
    by (simp_all add: resolved_schema_def is_object_schema_def part_A_def object_schema_def)
  have a1: "additionalProperties part_A = AP_absent"
    by (simp add: part_A_def object_schema_def)
  have k1: "fst ` set (props_of part_A) = {''id''}"
    by (simp add: part_A_def object_schema_def props_of_def)
  have e1: "schemaToZodExpression example_spec part_A Input 0 {} =
       Inr (ZObject [(''id'', ZString)] Strict)"
    by code_simp
  have h1: "resolved_schema part_A \<and> is_object_schema part_A \<and> 0 \<le> MAX_SCHEMA_DEPTH
      \<and> schemaToZodExpression example_spec part_A Input 0 {} =
          Inr (ZObject [(''id'', ZString)] Strict)"
    using r1 e1 by blast
  note c1 = input_object_unknown_properties [of part_A 0 example_spec "{}"
      "ZObject [(''id'', ZString)] Strict", THEN conjunct1, THEN mp, OF h1]
  then obtain entries1 where
    "additionalProperties part_A = AP_absent \<or> additionalProperties part_A = AP_bool False \<longrightarrow>
       ZObject [(''id'', ZString)] Strict = finish part_A (ZObject entries1 Strict)
       \<and> (\<forall>fs. accepts (ZObject [(''id'', ZString)] Strict) (Some (JObj fs)) \<longrightarrow>
             fst ` set fs \<subseteq> fst ` set (props_of part_A))"
    by blast
  with a1 have "accepts (ZObject [(''id'', ZString)] Strict)
         (Some (JObj [(''id'', JStr ''x''), (''extra'', JNum 1)])) \<longrightarrow>
      fst ` set [(''id'', JStr ''x''), (''extra'', JNum 1)] \<subseteq> fst ` set (props_of part_A)"
    by blast
  then have n1: "\<not> accepts (ZObject [(''id'', ZString)] Strict)
         (Some (JObj [(''id'', JStr ''x''), (''extra'', JNum 1)]))"
    unfolding k1 by auto
  have r2: "resolved_schema (with_additional (AP_bool True) part_A)"
    "is_object_schema (with_additional (AP_bool True) part_A)"
    by (simp_all add: resolved_schema_def is_object_schema_def part_A_def object_schema_def
        with_additional_def)
  have a2: "additionalProperties (with_additional (AP_bool True) part_A) = AP_bool True"
    by (simp add: with_additional_def)
  have e2: "schemaToZodExpression example_spec (with_additional (AP_bool True) part_A) Input 0 {} =
       Inr (ZObject [(''id'', ZString)] Passthrough)"
    by code_simp
  have h2: "resolved_schema (with_additional (AP_bool True) part_A)
      \<and> is_object_schema (with_additional (AP_bool True) part_A) \<and> 0 \<le> MAX_SCHEMA_DEPTH
      \<and> schemaToZodExpression example_spec (with_additional (AP_bool True) part_A) Input 0 {} =
          Inr (ZObject [(''id'', ZString)] Passthrough)"
    using r1(3) r2 e2 by blast
  note c2 = input_object_unknown_properties [of "with_additional (AP_bool True) part_A" 0
      example_spec "{}" "ZObject [(''id'', ZString)] Passthrough",
      THEN conjunct1, THEN mp, OF h2]
  then obtain entries2 where
    "additionalProperties (with_additional (AP_bool True) part_A) = AP_bool True \<longrightarrow>
       ZObject [(''id'', ZString)] Passthrough =
         finish (with_additional (AP_bool True) part_A) (ZObject entries2 Passthrough)
       \<and> (\<forall>fs. accepts (ZObject [(''id'', ZString)] Passthrough) (Some (JObj fs)) \<longleftrightarrow>
                (\<forall>(k, pe) \<in> set entries2. accepts pe (map_of fs k)))"
    by blast
  with a2 have f2: "ZObject [(''id'', ZString)] Passthrough =
         finish (with_additional (AP_bool True) part_A) (ZObject entries2 Passthrough)"
    and g2: "accepts (ZObject [(''id'', ZString)] Passthrough)
         (Some (JObj [(''id'', JStr ''x''), (''extra'', JNum 1)])) \<longleftrightarrow>
        (\<forall>(k, pe) \<in> set entries2.
           accepts pe (map_of [(''id'', JStr ''x''), (''extra'', JNum 1)] k))"
    by blast+
  from f2 have "entries2 = [(''id'', ZString)]"
    by (simp add: finish_def with_additional_def part_A_def object_schema_def
        descriptionParts_def)
  with g2 have n2: "accepts (ZObject [(''id'', ZString)] Passthrough)
         (Some (JObj [(''id'', JStr ''x''), (''extra'', JNum 1)]))"
    by simp
  have r3: "resolved_schema (with_additional (AP_schema (typed_schema ''number'')) part_A)"
    "is_object_schema (with_additional (AP_schema (typed_schema ''number'')) part_A)"
    by (simp_all add: resolved_schema_def is_object_schema_def part_A_def object_schema_def
        with_additional_def)
  have e3: "schemaToZodExpression example_spec
        (with_additional (AP_schema (typed_schema ''number'')) part_A) Input 0 {} =
       Inr (ZObject [(''id'', ZString)] (Catchall ZNumber))"
    by code_simp
  have n3: "accepts (ZObject [(''id'', ZString)] (Catchall ZNumber))
         (Some (JObj [(''id'', JStr ''x''), (''extra'', JNum 1)]))"
    "\<not> accepts (ZObject [(''id'', ZString)] (Catchall ZNumber))
         (Some (JObj [(''id'', JStr ''x''), (''extra'', JStr ''y'')]))"
    by simp_all
  from r1 e1 a1 n1 r2 e2 n2 r3 e3 n3 show ?thesis by blast
qed

subsection \<open>Objects under the output mode\<close>

lemma output_object_general:
  assumes "resolved_schema s" "is_object_schema s" "depth \<le> MAX_SCHEMA_DEPTH"
    and "schemaToZodExpression sp s Output depth seenRefs = Inr e"
  shows "\<exists>entries.
       compile_entries sp (props_of s) (required_of s) Output depth seenRefs = Inr entries
     \<and> map fst entries = map fst (props_of s)
     \<and> e = finish s (ZObject entries Passthrough)
     \<and> (\<forall>fs. accepts e (Some (JObj fs)) \<longleftrightarrow>
           (\<forall>(k, pe) \<in> set entries. accepts pe (map_of fs k)))
     \<and> (\<forall>fs fs'. accepts e (Some (JObj fs))
           \<and> (\<forall>k \<in> fst ` set (props_of s). map_of fs' k = map_of fs k) \<longrightarrow>
           accepts e (Some (JObj fs')))
     \<and> (\<forall>(k, pe) \<in> set entries. k \<notin> set (required_of s) \<longrightarrow>
           (\<exists>x. pe = ZNullable (ZOptional x)) \<and> accepts pe (Some JNull) \<and> accepts pe None)"
proof -
  from assms(4) compile_object [OF assms(1-3), of sp Output seenRefs]
  obtain entries where
    entries: "compile_entries sp (props_of s) (required_of s) Output depth seenRefs = Inr entries"
    and e: "e = finish s (ZObject entries Passthrough)"
    by (auto split: sum.splits)
  have keys: "map fst entries = map fst (props_of s)"
    using entries by (rule compile_entries_keys)
  then have keys': "fst ` set entries = fst ` set (props_of s)"
    by (metis list.set_map)
  have acc: "accepts e (Some (JObj fs)) \<longleftrightarrow>
           (\<forall>(k, pe) \<in> set entries. accepts pe (map_of fs k))" for fs
    by (simp only: e finish_object accepts_passthrough)
  have ext: "accepts e (Some (JObj fs'))"
    if "accepts e (Some (JObj fs))" "\<forall>k \<in> fst ` set (props_of s). map_of fs' k = map_of fs k"
    for fs fs'
  proof -
    have "accepts pe (map_of fs' k)" if "(k, pe) \<in> set entries" for k pe
    proof -
      from that have "k \<in> fst ` set entries" by force
      with keys' \<open>\<forall>k \<in> fst ` set (props_of s). map_of fs' k = map_of fs k\<close>
      have "map_of fs' k = map_of fs k" by blast
      moreover from \<open>accepts e (Some (JObj fs))\<close> that have "accepts pe (map_of fs k)"
        unfolding acc by blast
      ultimately show ?thesis by simp
    qed
    then show ?thesis unfolding acc by blast
  qed
  have opt: "(\<exists>x. pe = ZNullable (ZOptional x)) \<and> accepts pe (Some JNull) \<and> accepts pe None"
    if "(k, pe) \<in> set entries" "k \<notin> set (required_of s)" for k pe
  proof -
    from compile_entries_optional [OF entries that] obtain x where
      "pe = ZNullable (ZOptional x)" by auto
    then show ?thesis by simp
  qed
  from entries keys e acc ext opt show ?thesis by blast
qed

text \<open>
  C2. A resolved object schema that compiles under the output mode (at a depth within
  the bound) compiles to an object validator over the declared properties that passes
  unknown properties through: whether it accepts an object depends on the values of
  the declared properties alone, so an accepted object stays accepted whatever other
  properties are added. The validator of every property that is not required is the
  property's validator made optional and then nullable, and accepts an explicit
  \<open>null\<close>. The object schema with the one required string property \<open>id\<close> compiles to a
  validator that accepts \<open>{"id":"x","extra":true}\<close>.
\<close>

theorem output_object_tolerant:
  "(resolved_schema s \<and> is_object_schema s \<and> depth \<le> MAX_SCHEMA_DEPTH
      \<and> schemaToZodExpression sp s Output depth seenRefs = Inr e \<longrightarrow>
    (\<exists>entries.
       compile_entries sp (props_of s) (required_of s) Output depth seenRefs = Inr entries
     \<and> map fst entries = map fst (props_of s)
     \<and> e = finish s (ZObject entries Passthrough)
     \<and> (\<forall>fs. accepts e (Some (JObj fs)) \<longleftrightarrow>
           (\<forall>(k, pe) \<in> set entries. accepts pe (map_of fs k)))
     \<and> (\<forall>fs fs'. accepts e (Some (JObj fs))
           \<and> (\<forall>k \<in> fst ` set (props_of s). map_of fs' k = map_of fs k) \<longrightarrow>
           accepts e (Some (JObj fs')))
     \<and> (\<forall>(k, pe) \<in> set entries. k \<notin> set (required_of s) \<longrightarrow>
           (\<exists>x. pe = ZNullable (ZOptional x)) \<and> accepts pe (Some JNull) \<and> accepts pe None)))
   \<and> schemaToZodExpression sp part_A Output 0 seenRefs =
       Inr (ZObject [(''id'', ZString)] Passthrough)
   \<and> accepts (ZObject [(''id'', ZString)] Passthrough)
       (Some (JObj [(''id'', JStr ''x''), (''extra'', JBool True)]))"
proof -
  have a: "schemaToZodExpression sp part_A Output 0 seenRefs =
       Inr (ZObject [(''id'', ZString)] Passthrough)"
    by (rule ex_out)
  have b: "accepts (ZObject [(''id'', ZString)] Passthrough)
       (Some (JObj [(''id'', JStr ''x''), (''extra'', JBool True)]))"
    by simp
  from output_object_general [of s depth sp seenRefs e] a b show ?thesis by blast
qed

theorem output_object_tolerant_witness:
  "resolved_schema optional_id \<and> is_object_schema optional_id \<and> (0::nat) \<le> MAX_SCHEMA_DEPTH
   \<and> schemaToZodExpression example_spec optional_id Output 0 {} =
       Inr (ZObject [(''id'', ZNullable (ZOptional ZString))] Passthrough)
   \<and> accepts (ZObject [(''id'', ZNullable (ZOptional ZString))] Passthrough)
       (Some (JObj [(''id'', JStr ''x'')]))
   \<and> accepts (ZObject [(''id'', ZNullable (ZOptional ZString))] Passthrough)
       (Some (JObj [(''id'', JStr ''x''), (''extra'', JBool True)]))
   \<and> ''id'' \<notin> set (required_of optional_id)
   \<and> accepts (ZNullable (ZOptional ZString)) (Some JNull)"
proof -
  have r: "resolved_schema optional_id" "is_object_schema optional_id"
    "(0::nat) \<le> MAX_SCHEMA_DEPTH"
    by (simp_all add: resolved_schema_def is_object_schema_def optional_id_def object_schema_def)
  have k: "fst ` set (props_of optional_id) = {''id''}" "''id'' \<notin> set (required_of optional_id)"
    by (simp_all add: optional_id_def object_schema_def props_of_def required_of_def)
  have e: "schemaToZodExpression example_spec optional_id Output 0 {} =
       Inr (ZObject [(''id'', ZNullable (ZOptional ZString))] Passthrough)"
    by code_simp
  have h: "resolved_schema optional_id \<and> is_object_schema optional_id \<and> 0 \<le> MAX_SCHEMA_DEPTH
      \<and> schemaToZodExpression example_spec optional_id Output 0 {} =
       Inr (ZObject [(''id'', ZNullable (ZOptional ZString))] Passthrough)"
    using r e by blast
  note c = output_object_tolerant [of optional_id 0 example_spec "{}"
      "ZObject [(''id'', ZNullable (ZOptional ZString))] Passthrough",
      THEN conjunct1, THEN mp, OF h]
  then obtain entries where
    f: "ZObject [(''id'', ZNullable (ZOptional ZString))] Passthrough =
          finish optional_id (ZObject entries Passthrough)" and
    x: "\<forall>fs fs'. accepts (ZObject [(''id'', ZNullable (ZOptional ZString))] Passthrough)
             (Some (JObj fs))
           \<and> (\<forall>k \<in> fst ` set (props_of optional_id). map_of fs' k = map_of fs k) \<longrightarrow>
           accepts (ZObject [(''id'', ZNullable (ZOptional ZString))] Passthrough)
             (Some (JObj fs'))" and
    n: "\<forall>(k, pe) \<in> set entries. k \<notin> set (required_of optional_id) \<longrightarrow>
           (\<exists>x. pe = ZNullable (ZOptional x)) \<and> accepts pe (Some JNull) \<and> accepts pe None"
    by blast
  have a0: "accepts (ZObject [(''id'', ZNullable (ZOptional ZString))] Passthrough)
       (Some (JObj [(''id'', JStr ''x'')]))"
    by simp
  have m: "\<forall>k \<in> fst ` set (props_of optional_id).
      map_of [(''id'', JStr ''x''), (''extra'', JBool True)] k = map_of [(''id'', JStr ''x'')] k"
    unfolding k by simp
  from x a0 m have a1: "accepts (ZObject [(''id'', ZNullable (ZOptional ZString))] Passthrough)
       (Some (JObj [(''id'', JStr ''x''), (''extra'', JBool True)]))"
    by blast
  from f have "entries = [(''id'', ZNullable (ZOptional ZString))]"
    by (simp add: finish_def optional_id_def object_schema_def descriptionParts_def)
  with n k(2) have a2: "accepts (ZNullable (ZOptional ZString)) (Some JNull)"
    by simp
  from r e a0 a1 k(2) a2 show ?thesis by blast
qed

subsection \<open>Enumerations\<close>

lemma compile_string:
  assumes "resolved_schema s" "type s = Some ''string''" "properties s = None"
    "depth \<le> MAX_SCHEMA_DEPTH"
  shows "schemaToZodExpression sp s m depth seenRefs = Inr (finish s (string_expression s m))"
proof -
  have o: "oneOf s = None" "anyOf s = None"
    using assms(1) by (simp_all add: resolved_schema_def)
  have d: "\<not> MAX_SCHEMA_DEPTH < depth" using assms(4) by simp
  show ?thesis
    by (subst schemaToZodExpression.simps)
       (simp add: derefSchema_resolved [OF assms(1,4)] o d assms(2,3))
qed

lemma compile_untyped:
  assumes "resolved_schema s" "type s = None" "properties s = None"
    "depth \<le> MAX_SCHEMA_DEPTH"
  shows "schemaToZodExpression sp s m depth seenRefs = Inr (finish s (untyped_expression s m))"
proof -
  have o: "oneOf s = None" "anyOf s = None"
    using assms(1) by (simp_all add: resolved_schema_def)
  have d: "\<not> MAX_SCHEMA_DEPTH < depth" using assms(4) by simp
  show ?thesis
    by (subst schemaToZodExpression.simps)
       (simp add: derefSchema_resolved [OF assms(1,4)] o d assms(2,3))
qed

lemma all_strings_iff: "length (filter is_string vs) = length vs \<longleftrightarrow> list_all is_string vs"
proof (induction vs)
  case Nil
  show ?case by simp
next
  case (Cons v vs)
  have le: "length (filter is_string vs) \<le> length vs" by (rule length_filter_le)
  show ?case
  proof (cases "is_string v")
    case True
    with Cons show ?thesis by simp
  next
    case False
    from le have "length (filter is_string vs) \<noteq> Suc (length vs)" by arith
    with False show ?thesis by simp
  qed
qed

lemma filter_all_strings: "list_all is_string vs \<Longrightarrow> filter is_string vs = vs"
  by (induction vs) auto

lemma is_string_JStr: "is_string v \<Longrightarrow> v = JStr (string_of v)"
  by (cases v) auto

lemma accepts_enum:
  assumes "list_all is_string vs"
  shows "accepts (ZEnum (map string_of vs)) (Some v) \<longleftrightarrow> v \<in> set vs"
proof
  assume "accepts (ZEnum (map string_of vs)) (Some v)"
  then obtain str where v: "v = JStr str" and "str \<in> string_of ` set vs"
    by (cases v) auto
  then obtain x where x: "x \<in> set vs" "string_of x = str" by auto
  with assms have "is_string x" by (simp add: list_all_iff)
  with x v is_string_JStr [of x] show "v \<in> set vs" by simp
next
  assume "v \<in> set vs"
  with assms have "is_string v" by (simp add: list_all_iff)
  then have v: "v = JStr (string_of v)" by (rule is_string_JStr)
  from \<open>v \<in> set vs\<close> have "string_of v \<in> set (map string_of vs)" by simp
  then have "accepts (ZEnum (map string_of vs)) (Some (JStr (string_of v)))" by simp
  with v show "accepts (ZEnum (map string_of vs)) (Some v)" by simp
qed

lemma accepts_literals:
  "accepts (ZUnion (map literalExpression vs)) (Some v) \<longleftrightarrow> v \<in> set vs \<and> is_primitive v"
  by (auto simp: list_ex_iff literalExpression_def)

lemma accepts_literal_or_union:
  "vs \<noteq> [] \<Longrightarrow>
   accepts (if length vs = 1 then ZLiteral (hd vs) else ZUnion (map ZLiteral vs)) (Some v)
     \<longleftrightarrow> v \<in> set vs \<and> is_primitive v"
proof (cases "length vs = 1")
  case True
  then obtain x where "vs = [x]" by (cases vs) auto
  then show ?thesis by auto
next
  case False
  then show ?thesis using accepts_literals [of vs v] by (simp add: literalExpression_def [abs_def])
qed

lemma accepts_string: "accepts ZString (Some v) \<longleftrightarrow> is_string v"
  by (cases v) auto

lemma string_expression_cases:
  assumes "enum s = Some vs" "vs \<noteq> []"
  shows "string_expression s Output = ZString"
    and "list_all is_string vs \<Longrightarrow> string_expression s Input = ZEnum (map string_of vs)"
    and "\<not> list_all is_string vs \<Longrightarrow>
         string_expression s Input =
           (if length vs = 1 then ZLiteral (hd vs) else ZUnion (map ZLiteral vs))"
proof -
  show "string_expression s Output = ZString"
    using assms by (simp add: string_expression_def Let_def)
  show "string_expression s Input = ZEnum (map string_of vs)" if "list_all is_string vs"
    using assms that
    by (simp add: string_expression_def Let_def all_strings_iff filter_all_strings)
  show "string_expression s Input =
           (if length vs = 1 then ZLiteral (hd vs) else ZUnion (map ZLiteral vs))"
    if "\<not> list_all is_string vs"
  proof (cases "length vs = 1")
    case True
    then obtain x where "vs = [x]" by (cases vs) auto
    with assms that show ?thesis
      by (simp add: string_expression_def Let_def literalExpression_def)
  next
    case False
    with assms that show ?thesis
      by (simp add: string_expression_def Let_def all_strings_iff literalExpression_def [abs_def])
  qed
qed

text \<open>
  C6, as stated, fails for a mixed enumeration under the output mode: the branch of
  string-typed schemas answers \<open>z.string()\<close> for every non-empty enumeration, and
  \<open>z.any()\<close> is the answer of the branch of schemas without a known type. The
  string-typed enumeration of \<open>"a"\<close> and \<open>5\<close> compiles under the output mode to
  \<open>z.string()\<close>, which rejects the value \<open>5\<close> where \<open>z.any()\<close> accepts it.
\<close>

theorem string_enum_counterexample:
  "schemaToZodExpression example_spec (string_enum_schema [JStr ''a'', JNum 5]) Output 0 {}
     = Inr ZString
   \<and> \<not> accepts ZString (Some (JNum 5))
   \<and> accepts ZAny (Some (JNum 5))"
proof -
  have "schemaToZodExpression example_spec (string_enum_schema [JStr ''a'', JNum 5]) Output 0 {}
     = Inr ZString"
    by code_simp
  then show ?thesis by simp
qed

text \<open>
  C6, amended. A resolved string-typed schema without properties and with a non-empty
  enumeration, at a depth within the bound, compiles under the input mode to the closed
  set of its members when all are strings, and otherwise to the union of the literals
  of its members (the one literal when there is one member); the validator accepts
  exactly the members (the primitive ones, for literals), and \<open>null\<close> when the schema is
  nullable. Under the output mode it compiles to the open string validator, all-string
  or mixed, which accepts every string, in the enumeration or not. Permissive-any is
  what a schema without a type and with a non-empty enumeration compiles to under the
  output mode; under the input mode that schema compiles to the union of the literals.
\<close>

theorem string_enum_compile:
  "(resolved_schema s \<and> type s = Some ''string'' \<and> properties s = None
      \<and> enum s = Some vs \<and> vs \<noteq> [] \<and> depth \<le> MAX_SCHEMA_DEPTH \<longrightarrow>
      (list_all is_string vs \<longrightarrow>
         schemaToZodExpression sp s Input depth seenRefs =
           Inr (finish s (ZEnum (map string_of vs)))
         \<and> (\<forall>v. accepts (finish s (ZEnum (map string_of vs))) (Some v) \<longleftrightarrow>
               v \<in> set vs \<or> (nullable s \<and> v = JNull)))
    \<and> (\<not> list_all is_string vs \<longrightarrow>
         schemaToZodExpression sp s Input depth seenRefs =
           Inr (finish s (if length vs = 1 then ZLiteral (hd vs)
                          else ZUnion (map ZLiteral vs)))
         \<and> (\<forall>v. accepts (finish s (if length vs = 1 then ZLiteral (hd vs)
                                    else ZUnion (map ZLiteral vs))) (Some v) \<longleftrightarrow>
               (v \<in> set vs \<and> is_primitive v) \<or> (nullable s \<and> v = JNull)))
    \<and> schemaToZodExpression sp s Output depth seenRefs = Inr (finish s ZString)
    \<and> (\<forall>v. accepts (finish s ZString) (Some v) \<longleftrightarrow>
               is_string v \<or> (nullable s \<and> v = JNull)))
   \<and> (resolved_schema s \<and> type s = None \<and> properties s = None
      \<and> enum s = Some vs \<and> vs \<noteq> [] \<and> depth \<le> MAX_SCHEMA_DEPTH \<longrightarrow>
      schemaToZodExpression sp s Input depth seenRefs =
        Inr (finish s (ZUnion (map ZLiteral vs)))
    \<and> schemaToZodExpression sp s Output depth seenRefs = Inr (finish s ZAny))"
proof -
  have typed: "(list_all is_string vs \<longrightarrow>
         schemaToZodExpression sp s Input depth seenRefs =
           Inr (finish s (ZEnum (map string_of vs)))
         \<and> (\<forall>v. accepts (finish s (ZEnum (map string_of vs))) (Some v) \<longleftrightarrow>
               v \<in> set vs \<or> (nullable s \<and> v = JNull)))
    \<and> (\<not> list_all is_string vs \<longrightarrow>
         schemaToZodExpression sp s Input depth seenRefs =
           Inr (finish s (if length vs = 1 then ZLiteral (hd vs)
                          else ZUnion (map ZLiteral vs)))
         \<and> (\<forall>v. accepts (finish s (if length vs = 1 then ZLiteral (hd vs)
                                    else ZUnion (map ZLiteral vs))) (Some v) \<longleftrightarrow>
               (v \<in> set vs \<and> is_primitive v) \<or> (nullable s \<and> v = JNull)))
    \<and> schemaToZodExpression sp s Output depth seenRefs = Inr (finish s ZString)
    \<and> (\<forall>v. accepts (finish s ZString) (Some v) \<longleftrightarrow>
               is_string v \<or> (nullable s \<and> v = JNull))"
    if h: "resolved_schema s" "type s = Some ''string''" "properties s = None"
      "enum s = Some vs" "vs \<noteq> []" "depth \<le> MAX_SCHEMA_DEPTH"
  proof -
    note c = compile_string [OF h(1,2,3,6), of sp _ seenRefs]
    note x = string_expression_cases [OF h(4,5)]
    have a: "schemaToZodExpression sp s Input depth seenRefs =
           Inr (finish s (ZEnum (map string_of vs)))" if "list_all is_string vs"
      using c [of Input] x(2) [OF that] by simp
    have a': "accepts (finish s (ZEnum (map string_of vs))) (Some v) \<longleftrightarrow>
               v \<in> set vs \<or> (nullable s \<and> v = JNull)" if "list_all is_string vs" for v
      using accepts_enum [OF that, of v] by (simp only: accepts_finish) simp
    have b: "schemaToZodExpression sp s Input depth seenRefs =
           Inr (finish s (if length vs = 1 then ZLiteral (hd vs)
                          else ZUnion (map ZLiteral vs)))" if "\<not> list_all is_string vs"
      using c [of Input] x(3) [OF that] by simp
    have b': "accepts (finish s (if length vs = 1 then ZLiteral (hd vs)
                                    else ZUnion (map ZLiteral vs))) (Some v) \<longleftrightarrow>
               (v \<in> set vs \<and> is_primitive v) \<or> (nullable s \<and> v = JNull)" for v
      using accepts_literal_or_union [OF h(5), of v] by (simp only: accepts_finish) simp
    have o: "schemaToZodExpression sp s Output depth seenRefs = Inr (finish s ZString)"
      using c [of Output] x(1) by simp
    have o': "accepts (finish s ZString) (Some v) \<longleftrightarrow>
               is_string v \<or> (nullable s \<and> v = JNull)" for v
      by (simp only: accepts_finish accepts_string) simp
    show ?thesis
      by (intro conjI impI allI) (simp_all only: a a' b b' o o' simp_thms)
  qed
  have untyped: "schemaToZodExpression sp s Input depth seenRefs =
        Inr (finish s (ZUnion (map ZLiteral vs)))
    \<and> schemaToZodExpression sp s Output depth seenRefs = Inr (finish s ZAny)"
    if h: "resolved_schema s" "type s = None" "properties s = None"
      "enum s = Some vs" "vs \<noteq> []" "depth \<le> MAX_SCHEMA_DEPTH"
    using compile_untyped [OF h(1,2,3,6), of sp _ seenRefs] h(4,5)
    by (simp add: untyped_expression_def literalExpression_def [abs_def])
  show ?thesis
  proof (intro conjI)
    show "resolved_schema s \<and> type s = Some ''string'' \<and> properties s = None
      \<and> enum s = Some vs \<and> vs \<noteq> [] \<and> depth \<le> MAX_SCHEMA_DEPTH \<longrightarrow>
      (list_all is_string vs \<longrightarrow>
         schemaToZodExpression sp s Input depth seenRefs =
           Inr (finish s (ZEnum (map string_of vs)))
         \<and> (\<forall>v. accepts (finish s (ZEnum (map string_of vs))) (Some v) \<longleftrightarrow>
               v \<in> set vs \<or> (nullable s \<and> v = JNull)))
    \<and> (\<not> list_all is_string vs \<longrightarrow>
         schemaToZodExpression sp s Input depth seenRefs =
           Inr (finish s (if length vs = 1 then ZLiteral (hd vs)
                          else ZUnion (map ZLiteral vs)))
         \<and> (\<forall>v. accepts (finish s (if length vs = 1 then ZLiteral (hd vs)
                                    else ZUnion (map ZLiteral vs))) (Some v) \<longleftrightarrow>
               (v \<in> set vs \<and> is_primitive v) \<or> (nullable s \<and> v = JNull)))
    \<and> schemaToZodExpression sp s Output depth seenRefs = Inr (finish s ZString)
    \<and> (\<forall>v. accepts (finish s ZString) (Some v) \<longleftrightarrow>
               is_string v \<or> (nullable s \<and> v = JNull))"
      by (rule impI, elim conjE, rule typed)
    show "resolved_schema s \<and> type s = None \<and> properties s = None
      \<and> enum s = Some vs \<and> vs \<noteq> [] \<and> depth \<le> MAX_SCHEMA_DEPTH \<longrightarrow>
      schemaToZodExpression sp s Input depth seenRefs =
        Inr (finish s (ZUnion (map ZLiteral vs)))
    \<and> schemaToZodExpression sp s Output depth seenRefs = Inr (finish s ZAny)"
      by (rule impI, elim conjE, rule untyped)
  qed
qed

theorem string_enum_compile_witness:
  "resolved_schema (string_enum_schema [JStr ''a'', JStr ''b''])
   \<and> type (string_enum_schema [JStr ''a'', JStr ''b'']) = Some ''string''
   \<and> list_all is_string [JStr ''a'', JStr ''b'']
   \<and> schemaToZodExpression example_spec (string_enum_schema [JStr ''a'', JStr ''b'']) Input 0 {}
       = Inr (ZEnum [''a'', ''b''])
   \<and> schemaToZodExpression example_spec (string_enum_schema [JStr ''a'', JStr ''b'']) Output 0 {}
       = Inr ZString
   \<and> \<not> list_all is_string [JStr ''a'', JNum 5]
   \<and> schemaToZodExpression example_spec (string_enum_schema [JStr ''a'', JNum 5]) Input 0 {}
       = Inr (ZUnion [ZLiteral (JStr ''a''), ZLiteral (JNum 5)])
   \<and> schemaToZodExpression example_spec (string_enum_schema [JStr ''a'', JNum 5]) Output 0 {}
       = Inr ZString
   \<and> resolved_schema (untyped_enum_schema [JStr ''a'', JNum 5])
   \<and> type (untyped_enum_schema [JStr ''a'', JNum 5]) = None
   \<and> schemaToZodExpression example_spec (untyped_enum_schema [JStr ''a'', JNum 5]) Output 0 {}
       = Inr ZAny"
proof -
  have r1: "resolved_schema (string_enum_schema vs)" "type (string_enum_schema vs) = Some ''string''"
    "properties (string_enum_schema vs) = None" "enum (string_enum_schema vs) = Some vs"
    "\<not> nullable (string_enum_schema vs)" "descriptionParts (string_enum_schema vs) = []" for vs
    by (simp_all add: resolved_schema_def string_enum_schema_def descriptionParts_def)
  have r2: "resolved_schema (untyped_enum_schema vs)" "type (untyped_enum_schema vs) = None"
    "properties (untyped_enum_schema vs) = None" "enum (untyped_enum_schema vs) = Some vs"
    "\<not> nullable (untyped_enum_schema vs)" "descriptionParts (untyped_enum_schema vs) = []" for vs
    by (simp_all add: resolved_schema_def untyped_enum_schema_def descriptionParts_def)
  have f: "finish (string_enum_schema vs) x = x" "finish (untyped_enum_schema vs) x = x" for vs x
    by (simp_all add: finish_def r1 r2)
  have d: "(0::nat) \<le> MAX_SCHEMA_DEPTH" by simp
  have s1: "list_all is_string [JStr ''a'', JStr ''b'']" by simp
  have s2: "\<not> list_all is_string [JStr ''a'', JNum 5]" by simp
  have h1: "resolved_schema (string_enum_schema [JStr ''a'', JStr ''b''])
      \<and> type (string_enum_schema [JStr ''a'', JStr ''b'']) = Some ''string''
      \<and> properties (string_enum_schema [JStr ''a'', JStr ''b'']) = None
      \<and> enum (string_enum_schema [JStr ''a'', JStr ''b'']) = Some [JStr ''a'', JStr ''b'']
      \<and> [JStr ''a'', JStr ''b''] \<noteq> [] \<and> 0 \<le> MAX_SCHEMA_DEPTH"
    using r1 d by simp
  note t1 = string_enum_compile [of "string_enum_schema [JStr ''a'', JStr ''b'']"
      "[JStr ''a'', JStr ''b'']" 0 example_spec "{}", THEN conjunct1, THEN mp, OF h1]
  from t1 s1 have a1: "schemaToZodExpression example_spec
        (string_enum_schema [JStr ''a'', JStr ''b'']) Input 0 {} = Inr (ZEnum [''a'', ''b''])"
    and a2: "schemaToZodExpression example_spec
        (string_enum_schema [JStr ''a'', JStr ''b'']) Output 0 {} = Inr ZString"
    by (simp_all only: f) simp_all
  have h2: "resolved_schema (string_enum_schema [JStr ''a'', JNum 5])
      \<and> type (string_enum_schema [JStr ''a'', JNum 5]) = Some ''string''
      \<and> properties (string_enum_schema [JStr ''a'', JNum 5]) = None
      \<and> enum (string_enum_schema [JStr ''a'', JNum 5]) = Some [JStr ''a'', JNum 5]
      \<and> [JStr ''a'', JNum 5] \<noteq> [] \<and> 0 \<le> MAX_SCHEMA_DEPTH"
    using r1 d by simp
  note t2 = string_enum_compile [of "string_enum_schema [JStr ''a'', JNum 5]"
      "[JStr ''a'', JNum 5]" 0 example_spec "{}", THEN conjunct1, THEN mp, OF h2]
  from t2 s2 have b1: "schemaToZodExpression example_spec
        (string_enum_schema [JStr ''a'', JNum 5]) Input 0 {}
         = Inr (ZUnion [ZLiteral (JStr ''a''), ZLiteral (JNum 5)])"
    and b2: "schemaToZodExpression example_spec
        (string_enum_schema [JStr ''a'', JNum 5]) Output 0 {} = Inr ZString"
    by (simp_all only: f) simp_all
  have h3: "resolved_schema (untyped_enum_schema [JStr ''a'', JNum 5])
      \<and> type (untyped_enum_schema [JStr ''a'', JNum 5]) = None
      \<and> properties (untyped_enum_schema [JStr ''a'', JNum 5]) = None
      \<and> enum (untyped_enum_schema [JStr ''a'', JNum 5]) = Some [JStr ''a'', JNum 5]
      \<and> [JStr ''a'', JNum 5] \<noteq> [] \<and> 0 \<le> MAX_SCHEMA_DEPTH"
    using r2 d by simp
  note t3 = string_enum_compile [of "untyped_enum_schema [JStr ''a'', JNum 5]"
      "[JStr ''a'', JNum 5]" 0 example_spec "{}", THEN conjunct2, THEN mp, OF h3]
  from t3 have c1: "schemaToZodExpression example_spec
        (untyped_enum_schema [JStr ''a'', JNum 5]) Output 0 {} = Inr ZAny"
    by (simp only: f)
  from r1(1,2) r2(1,2) s1 s2 a1 a2 b1 b2 c1 show ?thesis by blast
qed

subsection \<open>Reference pointers that cannot be looked up\<close>

lemma refs_of_ref: "ref s = Some r \<Longrightarrow> r \<in> refs_of s"
  by (cases s) auto

lemma refs_of_allOf: "allOf s = Some bs \<Longrightarrow> b \<in> set bs \<Longrightarrow> refs_of b \<subseteq> refs_of s"
  by (cases s) auto

lemma refs_of_properties: "properties s = Some ps \<Longrightarrow> (k, x) \<in> set ps \<Longrightarrow> refs_of x \<subseteq> refs_of s"
  by (cases s) force

lemma refs_of_items: "items s = Some i \<Longrightarrow> refs_of i \<subseteq> refs_of s"
  by (cases s) auto

lemma refs_of_additionalProperties:
  "additionalProperties s = AP_schema a \<Longrightarrow> refs_of a \<subseteq> refs_of s"
  by (cases s) auto

lemma refs_of_empty: "refs_of empty_schema = {}"
  by (simp add: empty_schema_def)

lemma refs_of_merged: "refs_of (merged_schema ps rq) = (\<Union>q \<in> set ps. refs_of (snd q))"
  by (simp add: merged_schema_def)

lemma Object_prototype_member_cases:
  "Object_prototype_member part = Some c \<Longrightarrow> c = Unwalkable"
  by (auto simp: Object_prototype_member_def split: if_splits)

lemma Array_prototype_member_cases:
  "Array_prototype_member part = Some c \<Longrightarrow> c = Unwalkable \<or> c = Object_prototype"
  by (auto simp: Array_prototype_member_def split: if_splits
      dest: Object_prototype_member_cases)

lemma member_of_views: "member_of c part = Some c' \<Longrightarrow> views_of c' \<subseteq> views_of c"
proof (induction c part rule: member_of.induct)
  case (1 v ms part)
  show ?case
  proof (cases "map_of ms part")
    case None
    with 1 have "c' = Object_prototype \<or> c' = Unwalkable"
      by (auto split: if_splits dest: Object_prototype_member_cases)
    then show ?thesis by auto
  next
    case (Some d)
    then have "(part, d) \<in> set ms" by (rule map_of_SomeD)
    with 1 Some show ?thesis by force
  qed
next
  case (2 xs part)
  then have "c' = Array_prototype \<or> c' = Object_prototype \<or> c' = Unwalkable
      \<or> (\<exists>i < length xs. c' = Node (xs ! i))"
    by (auto split: if_splits option.splits dest: Array_prototype_member_cases)
  then show ?case by (auto simp: set_conv_nth)
qed (auto dest: Object_prototype_member_cases Array_prototype_member_cases)

lemma navigate_views: "navigate c parts = Some c' \<Longrightarrow> views_of c' \<subseteq> views_of c"
proof (induction c parts rule: navigate.induct)
  case (1 current)
  then show ?case by simp
next
  case (2 current part parts)
  then obtain nxt where n: "member_of current part = Some nxt"
    and d': "navigate nxt parts = Some c'"
    by (auto split: option.splits)
  from 2(1) [OF n d'] member_of_views [OF n] show ?case by blast
qed

lemma as_schema_views: "refs_of (as_schema c) \<subseteq> (\<Union>s \<in> views_of c. refs_of s)"
  by (cases c rule: as_schema.cases) (auto simp: empty_schema_def)

lemma resolveRef_in_spec:
  assumes "resolveRef sp r = Inr s"
  shows "refs_of s \<subseteq> refs_in_spec sp"
proof -
  from assms obtain c where
    n: "navigate (Node (document sp)) (split_on (CHR ''/'') (drop 2 r)) = Some c"
    and s: "s = as_schema c"
    by (auto simp: resolveRef_def split: if_splits option.splits)
  from navigate_views [OF n] have "views_of c \<subseteq> doc_views (document sp)" by simp
  with as_schema_views [of c] s have "refs_of s \<subseteq> (\<Union>s \<in> doc_views (document sp). refs_of s)"
    by blast
  then show ?thesis
    unfolding refs_in_spec_def by blast
qed

lemma resolveRef_error:
  "resolveRef sp r = Inl e \<Longrightarrow> e = Unsupported_ref r \<or> e = Unresolvable_ref r"
  by (auto simp: resolveRef_def split: if_splits option.splits)

text \<open>
  \<open>resolveRef\<close> finds inherited members and the members of arrays: a pointer may end in
  a function of a prototype, in the length of an array or in \<open>null\<close>, but cannot pass
  through one of them, nor through a scalar.
\<close>

lemma resolveRef_inherited_members:
  "resolveRef tags_spec ''#/info/toString'' = Inr empty_schema
   \<and> resolveRef tags_spec ''#/info/toString/name'' =
       Inl (Unresolvable_ref ''#/info/toString/name'')
   \<and> resolveRef tags_spec ''#/info/constructor'' = Inr empty_schema
   \<and> resolveRef tags_spec ''#/info/__proto__/__proto__'' = Inr empty_schema
   \<and> resolveRef tags_spec ''#/info/__proto__/__proto__/x'' =
       Inl (Unresolvable_ref ''#/info/__proto__/__proto__/x'')
   \<and> resolveRef tags_spec ''#/info/title'' = Inr empty_schema
   \<and> resolveRef tags_spec ''#/info/title/length'' =
       Inl (Unresolvable_ref ''#/info/title/length'')
   \<and> resolveRef tags_spec ''#/info/version'' = Inl (Unresolvable_ref ''#/info/version'')
   \<and> resolveRef tags_spec ''#/tags/0'' = Inr (typed_schema ''string'')
   \<and> resolveRef tags_spec ''#/tags/1'' = Inr empty_schema
   \<and> resolveRef tags_spec ''#/tags/2'' = Inl (Unresolvable_ref ''#/tags/2'')
   \<and> resolveRef tags_spec ''#/tags/00'' = Inl (Unresolvable_ref ''#/tags/00'')
   \<and> resolveRef tags_spec ''#/tags/length'' = Inr empty_schema
   \<and> resolveRef tags_spec ''#/tags/map'' = Inr empty_schema
   \<and> resolveRef tags_spec ''#/tags/__proto__/length'' = Inr empty_schema
   \<and> resolveRef tags_spec ''#/tags/__proto__/__proto__/valueOf'' = Inr empty_schema
   \<and> resolveRef tags_spec ''tags'' = Inl (Unsupported_ref ''tags'')
   \<and> main tags_spec =
       Inr (Artifact
         [\<lparr> name = ''outline_auth_info'', title = ''outline_auth_info'',
             tool_description = [], methodName = ''auth.info'',
             inputSchema = ZObject [(''payload'', ZAny)] Strict, outputSchema = None,
             tool_annotations =
               \<lparr> readOnlyHint = True, destructiveHint = False, idempotentHint = True,
                 openWorldHint = True \<rparr> \<rparr>])"
proof -
  have a1: "resolveRef tags_spec ''#/info/toString'' = Inr empty_schema"
    by code_simp
  have a2: "resolveRef tags_spec ''#/info/toString/name'' =
       Inl (Unresolvable_ref ''#/info/toString/name'')"
    by code_simp
  have a3: "resolveRef tags_spec ''#/info/constructor'' = Inr empty_schema"
    by code_simp
  have a4: "resolveRef tags_spec ''#/info/__proto__/__proto__'' = Inr empty_schema"
    by code_simp
  have a5: "resolveRef tags_spec ''#/info/__proto__/__proto__/x'' =
       Inl (Unresolvable_ref ''#/info/__proto__/__proto__/x'')"
    by code_simp
  have a6: "resolveRef tags_spec ''#/info/title'' = Inr empty_schema"
    by code_simp
  have a7: "resolveRef tags_spec ''#/info/title/length'' =
       Inl (Unresolvable_ref ''#/info/title/length'')"
    by code_simp
  have a8: "resolveRef tags_spec ''#/info/version'' = Inl (Unresolvable_ref ''#/info/version'')"
    by code_simp
  have b1: "resolveRef tags_spec ''#/tags/0'' = Inr (typed_schema ''string'')"
    by code_simp
  have b2: "resolveRef tags_spec ''#/tags/1'' = Inr empty_schema"
    by code_simp
  have b3: "resolveRef tags_spec ''#/tags/2'' = Inl (Unresolvable_ref ''#/tags/2'')"
    by code_simp
  have b4: "resolveRef tags_spec ''#/tags/00'' = Inl (Unresolvable_ref ''#/tags/00'')"
    by code_simp
  have b5: "resolveRef tags_spec ''#/tags/length'' = Inr empty_schema"
    by code_simp
  have b6: "resolveRef tags_spec ''#/tags/map'' = Inr empty_schema"
    by code_simp
  have b7: "resolveRef tags_spec ''#/tags/__proto__/length'' = Inr empty_schema"
    by code_simp
  have b8: "resolveRef tags_spec ''#/tags/__proto__/__proto__/valueOf'' = Inr empty_schema"
    by code_simp
  have b9: "resolveRef tags_spec ''tags'' = Inl (Unsupported_ref ''tags'')"
    by code_simp
  have c: "main tags_spec =
       Inr (Artifact
         [\<lparr> name = ''outline_auth_info'', title = ''outline_auth_info'',
             tool_description = [], methodName = ''auth.info'',
             inputSchema = ZObject [(''payload'', ZAny)] Strict, outputSchema = None,
             tool_annotations =
               \<lparr> readOnlyHint = True, destructiveHint = False, idempotentHint = True,
                 openWorldHint = True \<rparr> \<rparr>])"
    by code_simp
  from a1 a2 a3 a4 a5 a6 a7 a8 b1 b2 b3 b4 b5 b6 b7 b8 b9 c show ?thesis
    by (intro conjI)
qed

lemma derefSchema_noref:
  "\<not> MAX_SCHEMA_DEPTH < depth \<Longrightarrow> \<not> (ref s \<noteq> None \<and> ref s \<noteq> Some []) \<Longrightarrow>
   derefSchema sp s seenRefs depth =
     (case allOf s of
        Some schemas \<Rightarrow> merge_loop sp schemas seenRefs depth [] []
      | None \<Rightarrow> Inr (s, seenRefs))"
  by (auto simp: derefSchema.simps)

lemma deref_inv:
  "closed_refs sp R \<Longrightarrow> refs_of s \<subseteq> R \<Longrightarrow> deref_ok sp R (derefSchema sp s seenRefs depth)"
  "closed_refs sp R \<Longrightarrow> \<forall>b \<in> set schemas. refs_of b \<subseteq> R \<Longrightarrow>
   \<forall>q \<in> set ps. refs_of (snd q) \<subseteq> R \<Longrightarrow>
   deref_ok sp R (merge_loop sp schemas seenRefs depth ps rq)"
proof (induction sp s seenRefs depth and sp schemas seenRefs depth ps rq
    rule: derefSchema_merge_loop.induct)
  case (1 sp s seenRefs depth)
  show ?case
  proof (cases "MAX_SCHEMA_DEPTH < depth")
    case True
    then show ?thesis
      by (simp add: derefSchema.simps deref_ok_def refs_of_empty)
  next
    case shallow: False
    show ?thesis
    proof (cases "ref s \<noteq> None \<and> ref s \<noteq> Some []")
      case True
      then obtain r where r: "ref s = Some r" by auto
      with "1.prems"(2) refs_of_ref [OF r] have rR: "r \<in> R" by auto
      show ?thesis
      proof (cases "r \<in> seenRefs")
        case seen: True
        with shallow True r show ?thesis
          by (simp add: derefSchema.simps deref_ok_def refs_of_empty)
      next
        case fresh: False
        show ?thesis
        proof (cases "resolveRef sp r")
          case (Inl e)
          with shallow True r fresh rR show ?thesis
            by (auto simp: derefSchema.simps deref_ok_def lookup_failure_def)
        next
          case (Inr target)
          with "1.prems"(1) have "refs_of target \<subseteq> R" by (auto simp: closed_refs_def)
          with "1.IH"(1) [of target] shallow True r fresh Inr "1.prems"(1)
          have "deref_ok sp R (derefSchema sp target (insert r seenRefs) (depth + 1))"
            by simp
          with shallow True r fresh Inr show ?thesis
            by (simp add: derefSchema.simps)
        qed
      qed
    next
      case noref: False
      note eq = derefSchema_noref [OF shallow noref, of sp seenRefs]
      show ?thesis
      proof (cases "allOf s")
        case None
        with "1.prems"(2) show ?thesis
          by (simp add: eq deref_ok_def)
      next
        case (Some bs)
        with "1.prems"(2) have bs: "\<forall>b \<in> set bs. refs_of b \<subseteq> R"
          using refs_of_allOf by blast
        have "deref_ok sp R (merge_loop sp bs seenRefs depth [] [])"
          by (rule "1.IH"(2) [OF shallow noref Some "1.prems"(1) bs]) simp
        with Some show ?thesis
          by (simp add: eq)
      qed
    qed
  qed
next
  case (2 sp seenRefs depth ps rq)
  then show ?case by (auto simp: deref_ok_def)
next
  case (3 sp s schemas seenRefs depth ps rq)
  from "3.prems" have s: "refs_of s \<subseteq> R" and rest: "\<forall>b \<in> set schemas. refs_of b \<subseteq> R" by auto
  from "3.IH"(1) [OF "3.prems"(1) s]
  have first: "deref_ok sp R (derefSchema sp s seenRefs (depth + 1))" .
  show ?case
  proof (cases "derefSchema sp s seenRefs (depth + 1)")
    case (Inl e)
    with first show ?thesis by (simp add: deref_ok_def)
  next
    case (Inr p)
    obtain x y where p: "p = (x, y)" by (cases p)
    from first Inr p have x: "refs_of x \<subseteq> R" by (simp add: deref_ok_def)
    have ps': "\<forall>q \<in> set (case properties x of Some xs \<Rightarrow> Object_assign ps xs | None \<Rightarrow> ps).
        refs_of (snd q) \<subseteq> R"
    proof (cases "properties x")
      case None
      with "3.prems"(3) show ?thesis by simp
    next
      case (Some xs)
      have "refs_of (snd q) \<subseteq> R" if "q \<in> set (Object_assign ps xs)" for q
      proof -
        from that set_Object_assign [of ps xs] have "q \<in> set ps \<or> q \<in> set xs" by auto
        then show ?thesis
        proof
          assume "q \<in> set ps"
          with "3.prems"(3) show ?thesis by blast
        next
          assume "q \<in> set xs"
          then have "(fst q, snd q) \<in> set xs" by simp
          from refs_of_properties [OF Some this] x show ?thesis by blast
        qed
      qed
      with Some show ?thesis by simp
    qed
    from "3.IH"(2) [OF Inr p [symmetric] "3.prems"(1) rest ps']
    show ?thesis using Inr p by simp
  qed
qed


lemma compile_ok_Inr [simp]: "compile_ok sp R (Inr x)"
  by (simp add: compile_ok_def)

lemma compile_ok_bind:
  "compile_ok sp R res \<Longrightarrow> (\<And>x. res = Inr x \<Longrightarrow> compile_ok sp R (f x)) \<Longrightarrow>
   compile_ok sp R (case res of Inl e \<Rightarrow> Inl e | Inr x \<Rightarrow> f x)"
  by (cases res) (simp_all add: compile_ok_def)

lemma compile_inv:
  "closed_refs sp R \<Longrightarrow> refs_of s \<subseteq> R \<Longrightarrow>
   compile_ok sp R (schemaToZodExpression sp s m depth seenRefs)"
  "closed_refs sp R \<Longrightarrow> \<forall>q \<in> set entries. refs_of (snd q) \<subseteq> R \<Longrightarrow>
   compile_ok sp R (compile_entries sp entries rq m depth seenRefs)"
proof (induction sp s m depth seenRefs and sp entries rq m depth seenRefs
    rule: schemaToZodExpression_compile_entries.induct)
  case (1 sp s m depth seenRefs0)
  note closed = "1.prems"(1)
  from deref_inv(1) [OF "1.prems", of seenRefs0 depth]
  have d: "deref_ok sp R (derefSchema sp s seenRefs0 depth)" .
  show ?case
  proof (cases "derefSchema sp s seenRefs0 depth")
    case (Inl e)
    with d show ?thesis
      by (subst schemaToZodExpression.simps) (simp add: compile_ok_def deref_ok_def)
  next
    case (Inr b)
    obtain x y where b: "b = (x, y)" by (cases b)
    from d Inr b have x: "refs_of x \<subseteq> R" by (simp add: deref_ok_def)
    note dx = Inr [unfolded b]
    show ?thesis
    proof (cases "MAX_SCHEMA_DEPTH < depth")
      case True
      then show ?thesis
        by (subst schemaToZodExpression.simps) (simp add: dx)
    next
      case shallow: False
      show ?thesis
      proof (cases "oneOf x \<noteq> None \<or> anyOf x \<noteq> None")
        case True
        then have "(oneOf x \<noteq> None \<or> anyOf x \<noteq> None) = True" by simp
        with shallow show ?thesis
          by (subst schemaToZodExpression.simps)
             (simp only: dx sum.case prod.case if_True if_False compile_ok_Inr)
      next
        case nounion: False
        then have nu: "(oneOf x \<noteq> None \<or> anyOf x \<noteq> None) = False" by simp
        from shallow have sh: "(MAX_SCHEMA_DEPTH < depth) = False" by simp
        show ?thesis
        proof (cases "type x = Some ''object'' \<or> properties x \<noteq> None")
          case obj: True
          then have ob: "(type x = Some ''object'' \<or> properties x \<noteq> None) = True" by simp
          have props: "\<forall>q \<in> set (case properties x of Some ps \<Rightarrow> ps | None \<Rightarrow> []).
              refs_of (snd q) \<subseteq> R"
          proof (cases "properties x")
            case None
            then show ?thesis by simp
          next
            case (Some ps)
            have "refs_of (snd q) \<subseteq> R" if "q \<in> set ps" for q
            proof -
              from that have "(fst q, snd q) \<in> set ps" by simp
              from refs_of_properties [OF Some this] x show ?thesis by blast
            qed
            with Some show ?thesis by simp
          qed
          have entries: "compile_ok sp R
              (compile_entries sp (case properties x of Some ps \<Rightarrow> ps | None \<Rightarrow> [])
                 (case required x of Some rs \<Rightarrow> rs | None \<Rightarrow> []) m depth y)"
            by (rule "1.IH"(1) [OF Inr b [symmetric] shallow nounion obj closed props])
          have rest: "compile_ok sp R
             (if m = Output then Inr (finish x (ZObject es Passthrough))
              else (case additionalProperties x of
                      AP_schema a \<Rightarrow>
                        (case schemaToZodExpression sp a m (depth + 1) y of
                           Inl e \<Rightarrow> Inl e
                         | Inr catchallExpression \<Rightarrow>
                             Inr (finish x (ZObject es (Catchall catchallExpression))))
                    | AP_bool b \<Rightarrow>
                        if b then Inr (finish x (ZObject es Passthrough))
                        else Inr (finish x (ZObject es Strict))
                    | AP_absent \<Rightarrow> Inr (finish x (ZObject es Strict))))"
            if es: "compile_entries sp (case properties x of Some ps \<Rightarrow> ps | None \<Rightarrow> [])
                 (case required x of Some rs \<Rightarrow> rs | None \<Rightarrow> []) m depth y = Inr es" for es
          proof (cases "m = Output")
            case True
            then show ?thesis by simp
          next
            case input: False
            show ?thesis
            proof (cases "additionalProperties x")
              case AP_absent
              with input show ?thesis by simp
            next
              case (AP_bool b)
              with input show ?thesis by simp
            next
              case (AP_schema a)
              from refs_of_additionalProperties [OF AP_schema] x have a: "refs_of a \<subseteq> R" by blast
              have "compile_ok sp R (schemaToZodExpression sp a m (depth + 1) y)"
                by (rule "1.IH"(2) [OF Inr b [symmetric] shallow nounion obj es input AP_schema
                      closed a])
              then have "compile_ok sp R
                  (case schemaToZodExpression sp a m (depth + 1) y of
                           Inl e \<Rightarrow> Inl e
                         | Inr catchallExpression \<Rightarrow>
                             Inr (finish x (ZObject es (Catchall catchallExpression))))"
                by (rule compile_ok_bind) simp
              with input AP_schema show ?thesis by simp
            qed
          qed
          from compile_ok_bind [OF entries rest]
          show ?thesis
            by (subst schemaToZodExpression.simps)
               (simp only: dx sum.case prod.case sh nu ob if_True if_False)
        next
          case nobj: False
          then have no: "(type x = Some ''object'' \<or> properties x \<noteq> None) = False" by simp
          show ?thesis
          proof (cases "type x = Some ''array''")
            case arr: True
            then have ar: "(type x = Some ''array'') = True" by simp
            show ?thesis
            proof (cases "items x")
              case None
              show ?thesis
                by (subst schemaToZodExpression.simps)
                   (simp only: dx sum.case prod.case sh nu no ar None if_True if_False
                      option.case compile_ok_Inr)
            next
              case (Some it)
              from refs_of_items [OF Some] x have it: "refs_of it \<subseteq> R" by blast
              have "compile_ok sp R (schemaToZodExpression sp it m (depth + 1) y)"
                by (rule "1.IH"(3) [OF Inr b [symmetric] shallow nounion nobj arr Some closed it])
              then have "compile_ok sp R
                  (case schemaToZodExpression sp it m (depth + 1) y of
                     Inl e \<Rightarrow> Inl e
                   | Inr itemExpression \<Rightarrow> Inr (finish x (ZArray itemExpression)))"
                by (rule compile_ok_bind) simp
              then show ?thesis
                by (subst schemaToZodExpression.simps)
                   (simp only: dx sum.case prod.case sh nu no ar Some if_True if_False
                      option.case)
            qed
          next
            case narr: False
            then have na: "(type x = Some ''array'') = False" by simp
            have "compile_ok sp R
               (if type x = Some ''string''
                then Inr (finish x (string_expression x m))
                else if type x = Some ''integer'' \<or> type x = Some ''number''
                then Inr (finish x ZNumber)
                else if type x = Some ''boolean''
                then Inr (finish x ZBoolean)
                else Inr (finish x (untyped_expression x m)))"
              by simp
            then show ?thesis
              by (subst schemaToZodExpression.simps)
                 (simp only: dx sum.case prod.case sh nu no na if_True if_False)
          qed
        qed
      qed
    qed
  qed
next
  case (2 sp requiredNames m depth seenRefs)
  show ?case by simp
next
  case (3 sp key propertySchema rest requiredNames m depth seenRefs)
  from "3.prems"(2) have p: "refs_of propertySchema \<subseteq> R"
    and r: "\<forall>q \<in> set rest. refs_of (snd q) \<subseteq> R" by auto
  have first: "compile_ok sp R (schemaToZodExpression sp propertySchema m (depth + 1) seenRefs)"
    by (rule "3.IH"(1) [OF "3.prems"(1) p])
  have others: "compile_ok sp R
      (case compile_entries sp rest requiredNames m depth seenRefs of
             Inl e \<Rightarrow> Inl e
           | Inr entries \<Rightarrow>
               Inr ((key,
                     if key \<notin> set requiredNames
                     then (if m = Output then ZNullable (ZOptional pe)
                           else ZOptional pe)
                     else pe) # entries))"
    if "schemaToZodExpression sp propertySchema m (depth + 1) seenRefs = Inr pe" for pe
    by (rule compile_ok_bind [OF "3.IH"(2) [OF that "3.prems"(1) r]]) simp
  from compile_ok_bind [OF first others] show ?case by simp
qed


lemma deref_ok_compile_ok:
  "deref_ok sp R res \<Longrightarrow> (\<And>x y. res = Inr (x, y) \<Longrightarrow> refs_of x \<subseteq> R \<Longrightarrow> compile_ok sp R (f x y)) \<Longrightarrow>
   compile_ok sp R (case res of Inl e \<Rightarrow> Inl e | Inr (x, y) \<Rightarrow> f x y)"
  by (cases res) (auto simp: compile_ok_def deref_ok_def)

lemma buildInput_inv:
  assumes "closed_refs sp R" "\<forall>s \<in> operation_schemas operation. refs_of s \<subseteq> R"
  shows "compile_ok sp R (buildInputSchemaExpression sp operation)"
proof (cases "requestSchema operation")
  case None
  then show ?thesis by (simp add: buildInputSchemaExpression_def)
next
  case (Some rq)
  with assms(2) have rq: "refs_of rq \<subseteq> R" by (simp add: operation_schemas_def)
  have "compile_ok sp R
     (case derefSchema sp rq {} 0 of
             Inl e \<Rightarrow> Inl e
           | Inr (resolved, seenRefs) \<Rightarrow>
               if is_object_schema resolved
               then schemaToZodExpression sp resolved Input 0 {}
               else (case schemaToZodExpression sp resolved Input 0 {} of
                       Inl e \<Rightarrow> Inl e
                     | Inr payloadExpression \<Rightarrow>
                         Inr (ZObject [(''payload'', payloadExpression)] Strict)))"
  proof (rule deref_ok_compile_ok [OF deref_inv(1) [OF assms(1) rq]])
    fix x y
    assume "refs_of x \<subseteq> R"
    from compile_inv(1) [OF assms(1) this, of Input 0 "{}"]
    have c: "compile_ok sp R (schemaToZodExpression sp x Input 0 {})" .
    then have "compile_ok sp R (case schemaToZodExpression sp x Input 0 {} of
                       Inl e \<Rightarrow> Inl e
                     | Inr payloadExpression \<Rightarrow>
                         Inr (ZObject [(''payload'', payloadExpression)] Strict))"
      by (rule compile_ok_bind) simp
    with c show "compile_ok sp R
       (if is_object_schema x
               then schemaToZodExpression sp x Input 0 {}
               else (case schemaToZodExpression sp x Input 0 {} of
                       Inl e \<Rightarrow> Inl e
                     | Inr payloadExpression \<Rightarrow>
                         Inr (ZObject [(''payload'', payloadExpression)] Strict)))"
      by simp
  qed
  with Some show ?thesis by (simp add: buildInputSchemaExpression_def)
qed

lemma buildOutput_inv:
  assumes "closed_refs sp R" "\<forall>s \<in> operation_schemas operation. refs_of s \<subseteq> R"
  shows "compile_ok sp R (buildOutputSchemaExpression sp operation)"
proof (cases "responseSchema operation")
  case None
  then show ?thesis by (simp add: buildOutputSchemaExpression_def)
next
  case (Some rs)
  with assms(2) have rs: "refs_of rs \<subseteq> R"
    by (auto simp: operation_schemas_def responseSchema_def split: option.splits)
  have "compile_ok sp R
     (case derefSchema sp rs {} 0 of
             Inl e \<Rightarrow> Inl e
           | Inr (resolved, seenRefs) \<Rightarrow>
               if \<not> is_object_schema resolved then Inr None
               else (case schemaToZodExpression sp rs Output 0 {} of
                       Inl e \<Rightarrow> Inl e
                     | Inr expression \<Rightarrow> Inr (Some expression)))"
  proof (rule deref_ok_compile_ok [OF deref_inv(1) [OF assms(1) rs]])
    fix x y
    from compile_inv(1) [OF assms(1) rs, of Output 0 "{}"]
    have "compile_ok sp R (case schemaToZodExpression sp rs Output 0 {} of
                       Inl e \<Rightarrow> Inl e
                     | Inr expression \<Rightarrow> Inr (Some expression))"
      by (rule compile_ok_bind) simp
    then show "compile_ok sp R
       (if \<not> is_object_schema x then Inr None
               else (case schemaToZodExpression sp rs Output 0 {} of
                       Inl e \<Rightarrow> Inl e
                     | Inr expression \<Rightarrow> Inr (Some expression)))"
      by simp
  qed
  with Some show ?thesis by (simp add: buildOutputSchemaExpression_def)
qed

lemma hasPagination_inv:
  assumes "closed_refs sp R" "\<forall>s \<in> operation_schemas operation. refs_of s \<subseteq> R"
  shows "compile_ok sp R (hasPagination sp operation)"
proof (cases "requestSchema operation")
  case None
  then show ?thesis by (simp add: hasPagination_def)
next
  case (Some rq)
  with assms(2) have rq: "refs_of rq \<subseteq> R" by (simp add: operation_schemas_def)
  from deref_inv(1) [OF assms(1) rq, of "{}" 0] Some show ?thesis
    by (auto simp: hasPagination_def deref_ok_def compile_ok_def Let_def split: sum.splits)
qed

lemma make_tool_inv:
  assumes "closed_refs sp R" "\<forall>s \<in> operation_schemas operation. refs_of s \<subseteq> R"
  shows "compile_ok sp R (make_tool sp pathKey operation)"
  using buildInput_inv [OF assms] buildOutput_inv [OF assms] hasPagination_inv [OF assms]
  by (auto simp: make_tool_def Let_def compile_ok_def split: sum.splits)

lemma method_loop_inv:
  assumes "closed_refs sp R"
    "\<forall>m \<in> set pathItem. \<forall>s \<in> operation_schemas (snd m). refs_of s \<subseteq> R"
  shows "compile_ok sp R (method_loop sp pathKey pathItem ms)"
proof (induction ms)
  case Nil
  show ?case by simp
next
  case (Cons m ms)
  show ?case
  proof (cases "map_of pathItem m")
    case None
    with Cons show ?thesis by simp
  next
    case (Some operation)
    then have "(m, operation) \<in> set pathItem" by (rule map_of_SomeD)
    with assms(2) have "\<forall>s \<in> operation_schemas operation. refs_of s \<subseteq> R" by force
    from make_tool_inv [OF assms(1) this, of pathKey] Cons Some show ?thesis
      by (auto simp: compile_ok_def split: sum.splits)
  qed
qed

lemma path_loop_inv:
  assumes "closed_refs sp R"
  shows "\<forall>p \<in> set ps. \<forall>m \<in> set (snd p). \<forall>s \<in> operation_schemas (snd m). refs_of s \<subseteq> R \<Longrightarrow>
    compile_ok sp R (path_loop sp ps)"
proof (induction ps)
  case Nil
  show ?case by simp
next
  case (Cons p ps)
  obtain pathKey pathItem where p: "p = (pathKey, pathItem)" by (cases p)
  from Cons.prems p have "\<forall>m \<in> set pathItem. \<forall>s \<in> operation_schemas (snd m). refs_of s \<subseteq> R"
    by simp
  from method_loop_inv [OF assms this, of pathKey methods] Cons p show ?case
    by (auto simp: compile_ok_def split: sum.splits)
qed

lemma closed_refs_in_spec: "closed_refs sp (refs_in_spec sp)"
  by (simp add: closed_refs_def resolveRef_in_spec)

lemma generateTools_inv: "compile_ok sp (refs_in_spec sp) (generateTools sp)"
  unfolding generateTools_def
  by (rule path_loop_inv [OF closed_refs_in_spec]) (auto simp: refs_in_spec_def)

lemma main_error:
  assumes "main sp = Inl e"
  shows "\<exists>r \<in> refs_in_spec sp. resolveRef sp r = Inl e
           \<and> (e = Unsupported_ref r \<or> e = Unresolvable_ref r)"
proof -
  from assms have "generateTools sp = Inl e"
    by (simp add: main_def split: sum.splits)
  with generateTools_inv [of sp] obtain r where
    "r \<in> refs_in_spec sp" "resolveRef sp r = Inl e"
    by (auto simp: compile_ok_def lookup_failure_def)
  with resolveRef_error [of sp r e] show ?thesis by blast
qed

text \<open>
  A reached pointer whose lookup fails makes the call fail, and every failure of a call
  is the failed lookup of a pointer that the call reaches.
\<close>

lemma deref_reaches_aborts:
  "deref_reaches sp s seenRefs depth r \<Longrightarrow> resolveRef sp r = Inl e \<Longrightarrow>
   \<exists>e'. derefSchema sp s seenRefs depth = Inl e'"
  "branches_reach sp schemas seenRefs depth r \<Longrightarrow> resolveRef sp r = Inl e \<Longrightarrow>
   \<exists>e'. merge_loop sp schemas seenRefs depth ps rq = Inl e'"
proof (induction arbitrary: and ps rq rule: deref_reaches_branches_reach.inducts)
  case (looked_up depth s r seenRefs sp)
  then show ?case by (simp add: derefSchema.simps)
next
  case (in_target depth s r0 seenRefs sp target r)
  then show ?case by (simp add: derefSchema.simps)
next
  case (in_allOf depth s schemas sp seenRefs r)
  from in_allOf.IH [OF in_allOf.prems, of "[]" "[]"] obtain e' where
    "merge_loop sp schemas seenRefs depth [] [] = Inl e'" by blast
  moreover from in_allOf.hyps(1,2) have "derefSchema sp s seenRefs depth =
     (case allOf s of
        Some schemas \<Rightarrow> merge_loop sp schemas seenRefs depth [] []
      | None \<Rightarrow> Inr (s, seenRefs))"
    by (intro derefSchema_noref) auto
  ultimately show ?case using in_allOf.hyps(3) by simp
next
  case (in_branch sp b seenRefs depth r schemas)
  then show ?case by auto
next
  case (in_later_branch sp b seenRefs depth resolved seenRefs' schemas r)
  then show ?case by simp
qed

lemma merge_loop_error:
  "merge_loop sp schemas seenRefs depth ps rq = Inl e \<Longrightarrow>
   (\<And>b seen. b \<in> set schemas \<Longrightarrow> derefSchema sp b seen (depth + 1) = Inl e \<Longrightarrow>
      \<exists>r. deref_reaches sp b seen (depth + 1) r \<and> resolveRef sp r = Inl e) \<Longrightarrow>
   \<exists>r. branches_reach sp schemas seenRefs depth r \<and> resolveRef sp r = Inl e"
proof (induction schemas arbitrary: seenRefs ps rq)
  case Nil
  then show ?case by simp
next
  case (Cons b schemas)
  show ?case
  proof (cases "derefSchema sp b seenRefs (depth + 1)")
    case (Inl e')
    with Cons.prems(1) have "e' = e" by simp
    with Inl Cons.prems(2) [of b seenRefs] obtain r where
      "deref_reaches sp b seenRefs (depth + 1) r" "resolveRef sp r = Inl e" by auto
    then show ?thesis by (blast intro: in_branch)
  next
    case (Inr p)
    obtain x y where p: "p = (x, y)" by (cases p)
    from Cons.prems(1) Inr p obtain ps' rq' where
      "merge_loop sp schemas y depth ps' rq' = Inl e" by simp
    from Cons.IH [OF this] Cons.prems(2) obtain r where
      "branches_reach sp schemas y depth r" "resolveRef sp r = Inl e" by auto
    with Inr p show ?thesis by (blast intro: in_later_branch)
  qed
qed

lemma deref_error:
  "derefSchema sp s seenRefs depth = Inl e \<Longrightarrow>
   \<exists>r. deref_reaches sp s seenRefs depth r \<and> resolveRef sp r = Inl e"
proof (induction "9 - depth" arbitrary: s seenRefs depth rule: less_induct)
  case less
  show ?case
  proof (cases "MAX_SCHEMA_DEPTH < depth")
    case True
    with less.prems show ?thesis by (simp add: derefSchema.simps)
  next
    case shallow: False
    then have d: "depth \<le> MAX_SCHEMA_DEPTH" by simp
    then have m: "9 - (depth + 1) < 9 - depth" by (simp add: MAX_SCHEMA_DEPTH_def)
    show ?thesis
    proof (cases "ref s \<noteq> None \<and> ref s \<noteq> Some []")
      case True
      then obtain r where r: "ref s = Some r" "r \<noteq> []" by auto
      show ?thesis
      proof (cases "r \<in> seenRefs")
        case True
        with less.prems shallow r show ?thesis by (simp add: derefSchema.simps)
      next
        case fresh: False
        show ?thesis
        proof (cases "resolveRef sp r")
          case (Inl e')
          with less.prems shallow r fresh have "e' = e" by (simp add: derefSchema.simps)
          with Inl looked_up [OF d r fresh, of sp] show ?thesis by blast
        next
          case (Inr target)
          with less.prems shallow r fresh
          have "derefSchema sp target (insert r seenRefs) (depth + 1) = Inl e"
            by (simp add: derefSchema.simps)
          from less.hyps [OF m this] obtain r' where
            "deref_reaches sp target (insert r seenRefs) (depth + 1) r'"
            "resolveRef sp r' = Inl e" by blast
          with in_target [OF d r fresh Inr] show ?thesis by blast
        qed
      qed
    next
      case noref: False
      note eq = derefSchema_noref [OF shallow noref, of sp seenRefs]
      show ?thesis
      proof (cases "allOf s")
        case None
        with less.prems show ?thesis by (simp add: eq)
      next
        case (Some bs)
        with less.prems have "merge_loop sp bs seenRefs depth [] [] = Inl e"
          by (simp add: eq)
        from merge_loop_error [OF this] less.hyps [OF m] obtain r where
          "branches_reach sp bs seenRefs depth r" "resolveRef sp r = Inl e" by blast
        moreover from noref have "ref s = None \<or> ref s = Some []" by blast
        from in_allOf [OF d this Some]
        have "branches_reach sp bs seenRefs depth r' \<Longrightarrow> deref_reaches sp s seenRefs depth r'"
          for r' .
        ultimately show ?thesis by blast
      qed
    qed
  qed
qed


lemma compile_entries_error:
  "compile_entries sp ps rq m depth seenRefs = Inl e \<Longrightarrow>
   \<exists>(key, propertySchema) \<in> set ps.
      schemaToZodExpression sp propertySchema m (depth + 1) seenRefs = Inl e"
proof (induction ps)
  case Nil
  then show ?case by simp
next
  case (Cons a ps)
  obtain k p where a: "a = (k, p)" by (cases a)
  show ?case
  proof (cases "schemaToZodExpression sp p m (depth + 1) seenRefs")
    case (Inl e')
    with Cons.prems a show ?thesis by simp
  next
    case (Inr pe)
    with Cons.prems a have "compile_entries sp ps rq m depth seenRefs = Inl e"
      by (simp split: sum.splits)
    from Cons.IH [OF this] show ?thesis by auto
  qed
qed

lemma compile_entries_aborts:
  "(key, propertySchema) \<in> set ps \<Longrightarrow>
   schemaToZodExpression sp propertySchema m (depth + 1) seenRefs = Inl e \<Longrightarrow>
   \<exists>e'. compile_entries sp ps rq m depth seenRefs = Inl e'"
proof (induction ps)
  case Nil
  then show ?case by simp
next
  case (Cons a ps)
  obtain k p where a: "a = (k, p)" by (cases a)
  show ?case
  proof (cases "schemaToZodExpression sp p m (depth + 1) seenRefs")
    case (Inl e')
    with a show ?thesis by simp
  next
    case (Inr pe)
    with Cons.prems a have "(key, propertySchema) \<in> set ps" by auto
    from Cons.IH [OF this Cons.prems(2)] Inr a show ?thesis by auto
  qed
qed

lemma schemaToZodExpression_error_cases:
  assumes "schemaToZodExpression sp s m depth seenRefs0 = Inl e"
  shows "derefSchema sp s seenRefs0 depth = Inl e
    \<or> (\<exists>x y. derefSchema sp s seenRefs0 depth = Inr (x, y) \<and> depth \<le> MAX_SCHEMA_DEPTH
          \<and> oneOf x = None \<and> anyOf x = None
          \<and> ((\<exists>ps. properties x = Some ps
                 \<and> compile_entries sp ps (case required x of Some rs \<Rightarrow> rs | None \<Rightarrow> [])
                      m depth y = Inl e)
             \<or> (is_object_schema x \<and> m = Input
                  \<and> (\<exists>a. additionalProperties x = AP_schema a
                        \<and> schemaToZodExpression sp a m (depth + 1) y = Inl e))
             \<or> (\<not> is_object_schema x \<and> type x = Some ''array''
                  \<and> (\<exists>it. items x = Some it
                        \<and> schemaToZodExpression sp it m (depth + 1) y = Inl e))))"
proof (cases "derefSchema sp s seenRefs0 depth")
  case (Inl e')
  with assms show ?thesis
    by (subst (asm) schemaToZodExpression.simps) simp
next
  case (Inr p)
  obtain x y where p: "p = (x, y)" by (cases p)
  note dx = Inr [unfolded p]
  from assms have *: "(if depth > MAX_SCHEMA_DEPTH then Inr ZAny
          else if oneOf x \<noteq> None \<or> anyOf x \<noteq> None then Inr ZAny
          else if type x = Some ''object'' \<or> properties x \<noteq> None
          then (case compile_entries sp
                       (case properties x of Some ps \<Rightarrow> ps | None \<Rightarrow> [])
                       (case required x of Some rs \<Rightarrow> rs | None \<Rightarrow> [])
                       m depth y of
                  Inl e \<Rightarrow> Inl e
                | Inr entries \<Rightarrow>
                    if m = Output then Inr (finish x (ZObject entries Passthrough))
                    else (case additionalProperties x of
                            AP_schema a \<Rightarrow>
                              (case schemaToZodExpression sp a m (depth + 1) y of
                                 Inl e \<Rightarrow> Inl e
                               | Inr catchallExpression \<Rightarrow>
                                   Inr (finish x
                                          (ZObject entries (Catchall catchallExpression))))
                          | AP_bool b \<Rightarrow>
                              if b then Inr (finish x (ZObject entries Passthrough))
                              else Inr (finish x (ZObject entries Strict))
                          | AP_absent \<Rightarrow> Inr (finish x (ZObject entries Strict))))
          else if type x = Some ''array''
          then (case items x of
                  Some it \<Rightarrow>
                    (case schemaToZodExpression sp it m (depth + 1) y of
                       Inl e \<Rightarrow> Inl e
                     | Inr itemExpression \<Rightarrow> Inr (finish x (ZArray itemExpression)))
                | None \<Rightarrow> Inr (finish x (ZArray ZAny)))
          else if type x = Some ''string''
          then Inr (finish x (string_expression x m))
          else if type x = Some ''integer'' \<or> type x = Some ''number''
          then Inr (finish x ZNumber)
          else if type x = Some ''boolean''
          then Inr (finish x ZBoolean)
          else Inr (finish x (untyped_expression x m))) = (Inl e :: error + zexpr)"
    by (subst (asm) schemaToZodExpression.simps) (simp only: dx sum.case prod.case)
  from * have d: "depth \<le> MAX_SCHEMA_DEPTH" by (auto split: if_splits)
  from * have u: "oneOf x = None" "anyOf x = None" by (auto split: if_splits)
  have m: "m = Input" if "m \<noteq> Output" using that by (cases m) auto
  show ?thesis
  proof (cases "is_object_schema x")
    case True
    show ?thesis
    proof (cases "compile_entries sp (case properties x of Some ps \<Rightarrow> ps | None \<Rightarrow> [])
                       (case required x of Some rs \<Rightarrow> rs | None \<Rightarrow> []) m depth y")
      case (Inl e')
      with * d u True have e': "e' = e"
        by (simp add: is_object_schema_def split: if_splits)
      from Inl obtain ps where "properties x = Some ps"
        by (cases "properties x") auto
      with Inl e' dx d u show ?thesis by auto
    next
      case (Inr es)
      with * d u True have "m \<noteq> Output \<and> (\<exists>a. additionalProperties x = AP_schema a
          \<and> schemaToZodExpression sp a m (depth + 1) y = Inl e)"
        by (auto simp: is_object_schema_def split: if_splits additional.splits sum.splits)
      with m dx d u True show ?thesis by blast
    qed
  next
    case False
    with * d u have "type x = Some ''array'' \<and> (\<exists>it. items x = Some it
        \<and> schemaToZodExpression sp it m (depth + 1) y = Inl e)"
      by (auto simp: is_object_schema_def split: if_splits option.splits sum.splits)
    with dx d u False show ?thesis by blast
  qed
qed

lemma compile_reaches_aborts:
  "compile_reaches sp s m depth seenRefs0 r \<Longrightarrow> resolveRef sp r = Inl e \<Longrightarrow>
   \<exists>e'. schemaToZodExpression sp s m depth seenRefs0 = Inl e'"
proof (induction rule: compile_reaches.induct)
  case (in_resolution sp s seenRefs0 depth r m)
  from deref_reaches_aborts(1) [OF in_resolution.hyps in_resolution.prems]
  show ?case
    by (subst schemaToZodExpression.simps) auto
next
  case (in_property sp s seenRefs0 depth resolved seenRefs ps key propertySchema m r)
  from in_property.IH [OF in_property.prems] obtain e' where
    "schemaToZodExpression sp propertySchema m (depth + 1) seenRefs = Inl e'" by blast
  from compile_entries_aborts [OF in_property.hyps(6) this] obtain e'' where
    "compile_entries sp ps (case required resolved of Some rs \<Rightarrow> rs | None \<Rightarrow> [])
       m depth seenRefs = Inl e''" by blast
  with in_property.hyps(1-5) show ?case
    by (subst schemaToZodExpression.simps) simp
next
  case (in_catchall sp s seenRefs0 depth resolved seenRefs a r)
  from in_catchall.IH [OF in_catchall.prems] obtain e' where
    "schemaToZodExpression sp a Input (depth + 1) seenRefs = Inl e'" by blast
  with in_catchall.hyps(1-6) show ?case
    by (subst schemaToZodExpression.simps)
       (auto simp: is_object_schema_def split: sum.splits)
next
  case (in_items sp s seenRefs0 depth resolved seenRefs it m r)
  from in_items.IH [OF in_items.prems] obtain e' where
    "schemaToZodExpression sp it m (depth + 1) seenRefs = Inl e'" by blast
  with in_items.hyps(1-7) show ?case
    by (subst schemaToZodExpression.simps)
       (auto simp: is_object_schema_def split: sum.splits)
qed

lemma compile_error:
  "schemaToZodExpression sp s m depth seenRefs0 = Inl e \<Longrightarrow>
   \<exists>r. compile_reaches sp s m depth seenRefs0 r \<and> resolveRef sp r = Inl e"
proof (induction "9 - depth" arbitrary: s depth seenRefs0 rule: less_induct)
  case less
  from schemaToZodExpression_error_cases [OF less.prems]
  consider
    (deref) "derefSchema sp s seenRefs0 depth = Inl e"
  | (props) x y ps where "derefSchema sp s seenRefs0 depth = Inr (x, y)"
      "depth \<le> MAX_SCHEMA_DEPTH" "oneOf x = None" "anyOf x = None" "properties x = Some ps"
      "compile_entries sp ps (case required x of Some rs \<Rightarrow> rs | None \<Rightarrow> []) m depth y = Inl e"
  | (catchall) x y a where "derefSchema sp s seenRefs0 depth = Inr (x, y)"
      "depth \<le> MAX_SCHEMA_DEPTH" "oneOf x = None" "anyOf x = None" "is_object_schema x"
      "m = Input" "additionalProperties x = AP_schema a"
      "schemaToZodExpression sp a m (depth + 1) y = Inl e"
  | (items) x y it where "derefSchema sp s seenRefs0 depth = Inr (x, y)"
      "depth \<le> MAX_SCHEMA_DEPTH" "oneOf x = None" "anyOf x = None" "\<not> is_object_schema x"
      "type x = Some ''array''" "items x = Some it"
      "schemaToZodExpression sp it m (depth + 1) y = Inl e"
    by blast
  then show ?case
  proof cases
    case deref
    from deref_error [OF this] show ?thesis by (blast intro: in_resolution)
  next
    case props
    from props(2) have m: "9 - (depth + 1) < 9 - depth" by (simp add: MAX_SCHEMA_DEPTH_def)
    from compile_entries_error [OF props(6)] obtain k p where
      kp: "(k, p) \<in> set ps" and "schemaToZodExpression sp p m (depth + 1) y = Inl e" by blast
    from less.hyps [OF m this(2)] obtain r where
      "compile_reaches sp p m (depth + 1) y r" "resolveRef sp r = Inl e" by blast
    with in_property [OF props(1-5) kp] show ?thesis by blast
  next
    case catchall
    from catchall(2) have m: "9 - (depth + 1) < 9 - depth" by (simp add: MAX_SCHEMA_DEPTH_def)
    from less.hyps [OF m catchall(8)] obtain r where
      "compile_reaches sp a m (depth + 1) y r" "resolveRef sp r = Inl e" by blast
    with in_catchall [OF catchall(1-5,7)] catchall(6) show ?thesis by blast
  next
    case items
    from items(2) have m: "9 - (depth + 1) < 9 - depth" by (simp add: MAX_SCHEMA_DEPTH_def)
    from less.hyps [OF m items(8)] obtain r where
      "compile_reaches sp it m (depth + 1) y r" "resolveRef sp r = Inl e" by blast
    with in_items [OF items(1-7)] show ?thesis by blast
  qed
qed


lemma buildInput_error:
  assumes "buildInputSchemaExpression sp operation = Inl e"
  shows "\<exists>r. request_reaches sp operation r \<and> resolveRef sp r = Inl e"
proof -
  from assms obtain rq where rq: "requestSchema operation = Some rq"
    by (cases "requestSchema operation") (auto simp: buildInputSchemaExpression_def)
  show ?thesis
  proof (cases "derefSchema sp rq {} 0")
    case (Inl e')
    with assms rq have "e' = e" by (simp add: buildInputSchemaExpression_def)
    with Inl deref_error [of sp rq "{}" 0 e] rq show ?thesis
      by (auto simp: request_reaches_def)
  next
    case (Inr p)
    obtain x y where p: "p = (x, y)" by (cases p)
    from assms rq Inr p have "schemaToZodExpression sp x Input 0 {} = Inl e"
      by (auto simp: buildInputSchemaExpression_def split: if_splits sum.splits)
    from compile_error [OF this] Inr p rq show ?thesis
      by (auto simp: request_reaches_def)
  qed
qed

lemma buildInput_aborts:
  assumes "request_reaches sp operation r" "resolveRef sp r = Inl e"
  shows "\<exists>e'. buildInputSchemaExpression sp operation = Inl e'"
proof -
  from assms(1) obtain rq where rq: "requestSchema operation = Some rq"
    and c: "deref_reaches sp rq {} 0 r
         \<or> (\<exists>resolved seenRefs. derefSchema sp rq {} 0 = Inr (resolved, seenRefs)
               \<and> compile_reaches sp resolved Input 0 {} r)"
    by (auto simp: request_reaches_def)
  from c show ?thesis
  proof
    assume "deref_reaches sp rq {} 0 r"
    from deref_reaches_aborts(1) [OF this assms(2)] rq show ?thesis
      by (auto simp: buildInputSchemaExpression_def)
  next
    assume "\<exists>resolved seenRefs. derefSchema sp rq {} 0 = Inr (resolved, seenRefs)
               \<and> compile_reaches sp resolved Input 0 {} r"
    then obtain x y where d: "derefSchema sp rq {} 0 = Inr (x, y)"
      and "compile_reaches sp x Input 0 {} r" by blast
    from compile_reaches_aborts [OF this(2) assms(2)] d rq show ?thesis
      by (auto simp: buildInputSchemaExpression_def)
  qed
qed

lemma hasPagination_error:
  assumes "hasPagination sp operation = Inl e"
  shows "\<exists>r. request_reaches sp operation r \<and> resolveRef sp r = Inl e"
proof -
  from assms obtain rq where rq: "requestSchema operation = Some rq"
    by (cases "requestSchema operation") (auto simp: hasPagination_def)
  with assms have "derefSchema sp rq {} 0 = Inl e"
    by (auto simp: hasPagination_def Let_def split: sum.splits)
  from deref_error [OF this] rq show ?thesis
    by (auto simp: request_reaches_def)
qed

lemma buildOutput_error:
  assumes "buildOutputSchemaExpression sp operation = Inl e"
  shows "\<exists>r. response_reaches sp operation r \<and> resolveRef sp r = Inl e"
proof -
  from assms obtain rs where rs: "responseSchema operation = Some rs"
    by (cases "responseSchema operation") (auto simp: buildOutputSchemaExpression_def)
  show ?thesis
  proof (cases "derefSchema sp rs {} 0")
    case (Inl e')
    with assms rs have "e' = e" by (simp add: buildOutputSchemaExpression_def)
    with Inl deref_error [of sp rs "{}" 0 e] rs show ?thesis
      by (auto simp: response_reaches_def)
  next
    case (Inr p)
    obtain x y where p: "p = (x, y)" by (cases p)
    from assms rs Inr p have "is_object_schema x"
      and "schemaToZodExpression sp rs Output 0 {} = Inl e"
      by (auto simp: buildOutputSchemaExpression_def split: if_splits sum.splits)
    from compile_error [OF this(2)] this(1) Inr p rs show ?thesis
      by (auto simp: response_reaches_def)
  qed
qed

lemma buildOutput_aborts:
  assumes "response_reaches sp operation r" "resolveRef sp r = Inl e"
  shows "\<exists>e'. buildOutputSchemaExpression sp operation = Inl e'"
proof -
  from assms(1) obtain rs where rs: "responseSchema operation = Some rs"
    and c: "deref_reaches sp rs {} 0 r
         \<or> (\<exists>resolved seenRefs. derefSchema sp rs {} 0 = Inr (resolved, seenRefs)
               \<and> is_object_schema resolved \<and> compile_reaches sp rs Output 0 {} r)"
    by (auto simp: response_reaches_def)
  from c show ?thesis
  proof
    assume "deref_reaches sp rs {} 0 r"
    from deref_reaches_aborts(1) [OF this assms(2)] rs show ?thesis
      by (auto simp: buildOutputSchemaExpression_def)
  next
    assume "\<exists>resolved seenRefs. derefSchema sp rs {} 0 = Inr (resolved, seenRefs)
               \<and> is_object_schema resolved \<and> compile_reaches sp rs Output 0 {} r"
    then obtain x y where d: "derefSchema sp rs {} 0 = Inr (x, y)"
      and o: "is_object_schema x"
      and "compile_reaches sp rs Output 0 {} r" by blast
    from compile_reaches_aborts [OF this(3) assms(2)] d o rs show ?thesis
      by (auto simp: buildOutputSchemaExpression_def)
  qed
qed

lemma make_tool_error:
  assumes "make_tool sp pathKey operation = Inl e"
  shows "\<exists>r. (request_reaches sp operation r \<or> response_reaches sp operation r)
            \<and> resolveRef sp r = Inl e"
proof -
  from assms have "buildInputSchemaExpression sp operation = Inl e
      \<or> buildOutputSchemaExpression sp operation = Inl e
      \<or> hasPagination sp operation = Inl e"
    by (auto simp: make_tool_def Let_def split: sum.splits)
  with buildInput_error [of sp operation e] buildOutput_error [of sp operation e]
    hasPagination_error [of sp operation e]
  show ?thesis by blast
qed

lemma make_tool_aborts:
  assumes "request_reaches sp operation r \<or> response_reaches sp operation r"
    "resolveRef sp r = Inl e"
  shows "\<exists>e'. make_tool sp pathKey operation = Inl e'"
proof -
  from assms buildInput_aborts [of sp operation r e] buildOutput_aborts [of sp operation r e]
  have "(\<exists>e'. buildInputSchemaExpression sp operation = Inl e')
      \<or> (\<exists>e'. buildOutputSchemaExpression sp operation = Inl e')"
    by blast
  then show ?thesis
    by (auto simp: make_tool_def Let_def split: sum.splits)
qed

lemma method_loop_error:
  "method_loop sp pathKey pathItem ms = Inl e \<Longrightarrow>
   \<exists>operation \<in> set (List.map_filter (map_of pathItem) ms).
      make_tool sp pathKey operation = Inl e"
proof (induction ms)
  case Nil
  then show ?case by simp
next
  case (Cons m ms)
  show ?case
  proof (cases "map_of pathItem m")
    case None
    with Cons show ?thesis by (simp add: List.map_filter_simps)
  next
    case (Some operation)
    show ?thesis
    proof (cases "make_tool sp pathKey operation")
      case (Inl e')
      with Cons.prems Some show ?thesis by (simp add: List.map_filter_simps)
    next
      case (Inr t)
      with Cons.prems Some have "method_loop sp pathKey pathItem ms = Inl e"
        by (simp split: sum.splits)
      from Cons.IH [OF this] Some show ?thesis by (simp add: List.map_filter_simps)
    qed
  qed
qed

lemma method_loop_aborts:
  "operation \<in> set (List.map_filter (map_of pathItem) ms) \<Longrightarrow>
   make_tool sp pathKey operation = Inl e \<Longrightarrow>
   \<exists>e'. method_loop sp pathKey pathItem ms = Inl e'"
proof (induction ms)
  case Nil
  then show ?case by (simp add: List.map_filter_simps)
next
  case (Cons m ms)
  show ?case
  proof (cases "map_of pathItem m")
    case None
    with Cons show ?thesis by (simp add: List.map_filter_simps)
  next
    case (Some operation')
    show ?thesis
    proof (cases "make_tool sp pathKey operation'")
      case (Inl e')
      with Some show ?thesis by simp
    next
      case (Inr t)
      with Cons.prems Some have "operation \<in> set (List.map_filter (map_of pathItem) ms)"
        by (auto simp: List.map_filter_simps)
      from Cons.IH [OF this Cons.prems(2)] Inr Some show ?thesis by auto
    qed
  qed
qed

lemma path_loop_error:
  "path_loop sp ps = Inl e \<Longrightarrow>
   \<exists>(pathKey, operation) \<in> set (concat (map (\<lambda>(pathKey, pathItem).
          map (Pair pathKey) (List.map_filter (map_of pathItem) methods)) ps)).
      make_tool sp pathKey operation = Inl e"
proof (induction ps)
  case Nil
  then show ?case by simp
next
  case (Cons p ps)
  obtain pathKey pathItem where p: "p = (pathKey, pathItem)" by (cases p)
  show ?case
  proof (cases "method_loop sp pathKey pathItem methods")
    case (Inl e')
    with Cons.prems p have "e' = e" by simp
    with Inl method_loop_error [of sp pathKey pathItem methods e] p show ?thesis
      by auto
  next
    case (Inr ts)
    with Cons.prems p have "path_loop sp ps = Inl e" by (simp split: sum.splits)
    from Cons.IH [OF this] obtain k operation where
      "(k, operation) \<in> set (concat (map (\<lambda>(pathKey, pathItem).
          map (Pair pathKey) (List.map_filter (map_of pathItem) methods)) ps))"
      "make_tool sp k operation = Inl e" by blast
    then have "(k, operation) \<in> set (concat (map (\<lambda>(pathKey, pathItem).
          map (Pair pathKey) (List.map_filter (map_of pathItem) methods)) (p # ps)))
        \<and> make_tool sp k operation = Inl e" by simp
    then show ?thesis by blast
  qed
qed

lemma path_loop_aborts:
  "(pathKey, operation) \<in> set (concat (map (\<lambda>(pathKey, pathItem).
          map (Pair pathKey) (List.map_filter (map_of pathItem) methods)) ps)) \<Longrightarrow>
   make_tool sp pathKey operation = Inl e \<Longrightarrow>
   \<exists>e'. path_loop sp ps = Inl e'"
proof (induction ps)
  case Nil
  then show ?case by simp
next
  case (Cons p ps)
  obtain k pathItem where p: "p = (k, pathItem)" by (cases p)
  show ?case
  proof (cases "method_loop sp k pathItem methods")
    case (Inl e')
    with p show ?thesis by simp
  next
    case (Inr ts)
    show ?thesis
    proof (cases "k = pathKey \<and> operation \<in> set (List.map_filter (map_of pathItem) methods)")
      case True
      with method_loop_aborts [of operation pathItem methods sp pathKey e] Cons.prems(2) Inr
      show ?thesis by auto
    next
      case False
      with Cons.prems(1) p have "(pathKey, operation) \<in> set (concat (map (\<lambda>(pathKey, pathItem).
          map (Pair pathKey) (List.map_filter (map_of pathItem) methods)) ps))"
        by auto
      from Cons.IH [OF this Cons.prems(2)] Inr p show ?thesis by auto
    qed
  qed
qed

lemma main_reached_error:
  assumes "main sp = Inl e"
  shows "\<exists>r. run_reaches sp r \<and> r \<in> refs_in_spec sp \<and> resolveRef sp r = Inl e
           \<and> (e = Unsupported_ref r \<or> e = Unresolvable_ref r)"
proof -
  from assms have "path_loop sp (paths sp) = Inl e"
    by (simp add: main_def generateTools_def split: sum.splits)
  from path_loop_error [OF this, folded operations_of_def] obtain pathKey operation where
    o: "(pathKey, operation) \<in> set (operations_of sp)"
    and "make_tool sp pathKey operation = Inl e"
    by blast
  from make_tool_error [OF this(2)] o obtain r where
    r: "run_reaches sp r" "resolveRef sp r = Inl e"
    by (auto simp: run_reaches_def)
  from main_error [OF assms] obtain r' where
    r': "r' \<in> refs_in_spec sp" "resolveRef sp r' = Inl e"
    by blast
  from resolveRef_error [OF r(2)] resolveRef_error [OF r'(2)] have "r' = r" by auto
  with r r' resolveRef_error [OF r(2)] show ?thesis by blast
qed

lemma main_reached_aborts:
  assumes "run_reaches sp r" "resolveRef sp r = Inl e"
  shows "\<exists>e'. main sp = Inl e'"
proof -
  from assms(1) obtain pathKey operation where
    o: "(pathKey, operation) \<in> set (operations_of sp)"
    and "request_reaches sp operation r \<or> response_reaches sp operation r"
    by (auto simp: run_reaches_def)
  from make_tool_aborts [OF this(2) assms(2), of pathKey] obtain e' where
    "make_tool sp pathKey operation = Inl e'" by blast
  from path_loop_aborts [OF o [unfolded operations_of_def] this] show ?thesis
    by (auto simp: main_def generateTools_def)
qed


lemma deref_reaches_refs:
  "deref_reaches sp s seenRefs depth r \<Longrightarrow> closed_refs sp R \<Longrightarrow> refs_of s \<subseteq> R \<Longrightarrow> r \<in> R"
  "branches_reach sp schemas seenRefs depth r \<Longrightarrow> closed_refs sp R \<Longrightarrow>
   \<forall>b \<in> set schemas. refs_of b \<subseteq> R \<Longrightarrow> r \<in> R"
proof (induction rule: deref_reaches_branches_reach.inducts)
  case (looked_up depth s r seenRefs sp)
  with refs_of_ref [of s r] show ?case by blast
next
  case (in_target depth s r0 seenRefs sp target r)
  from in_target.prems(1) in_target.hyps(5) have "refs_of target \<subseteq> R"
    by (auto simp: closed_refs_def)
  with in_target.IH in_target.prems(1) show ?case by blast
next
  case (in_allOf depth s schemas sp seenRefs r)
  from in_allOf.hyps(3) in_allOf.prems(2) have "\<forall>b \<in> set schemas. refs_of b \<subseteq> R"
    using refs_of_allOf by blast
  with in_allOf.IH in_allOf.prems(1) show ?case by blast
next
  case (in_branch sp b seenRefs depth r schemas)
  then show ?case by simp
next
  case (in_later_branch sp b seenRefs depth resolved seenRefs' schemas r)
  then show ?case by simp
qed

lemma compile_reaches_refs:
  "compile_reaches sp s m depth seenRefs0 r \<Longrightarrow> closed_refs sp R \<Longrightarrow> refs_of s \<subseteq> R \<Longrightarrow>
   r \<in> R"
proof (induction rule: compile_reaches.induct)
  case (in_resolution sp s seenRefs0 depth r m)
  from deref_reaches_refs(1) [OF in_resolution.hyps in_resolution.prems] show ?case .
next
  case (in_property sp s seenRefs0 depth resolved seenRefs ps key propertySchema m r)
  from deref_inv(1) [OF in_property.prems, of seenRefs0 depth] in_property.hyps(1)
  have "refs_of resolved \<subseteq> R" by (simp add: deref_ok_def)
  with refs_of_properties [OF in_property.hyps(5,6)] have "refs_of propertySchema \<subseteq> R"
    by blast
  from in_property.IH [OF in_property.prems(1) this] show ?case .
next
  case (in_catchall sp s seenRefs0 depth resolved seenRefs a r)
  from deref_inv(1) [OF in_catchall.prems, of seenRefs0 depth] in_catchall.hyps(1)
  have "refs_of resolved \<subseteq> R" by (simp add: deref_ok_def)
  with refs_of_additionalProperties [OF in_catchall.hyps(6)] have "refs_of a \<subseteq> R"
    by blast
  from in_catchall.IH [OF in_catchall.prems(1) this] show ?case .
next
  case (in_items sp s seenRefs0 depth resolved seenRefs it m r)
  from deref_inv(1) [OF in_items.prems, of seenRefs0 depth] in_items.hyps(1)
  have "refs_of resolved \<subseteq> R" by (simp add: deref_ok_def)
  with refs_of_items [OF in_items.hyps(7)] have "refs_of it \<subseteq> R"
    by blast
  from in_items.IH [OF in_items.prems(1) this] show ?case .
qed

lemma operation_refs_in_spec:
  assumes "(pathKey, operation) \<in> set (operations_of sp)" "s \<in> operation_schemas operation"
  shows "refs_of s \<subseteq> refs_in_spec sp"
proof -
  from assms(1) obtain pathItem where
    p: "(pathKey, pathItem) \<in> set (paths sp)"
    and "operation \<in> set (List.map_filter (map_of pathItem) methods)"
    by (auto simp: operations_of_def)
  then obtain m where "map_of pathItem m = Some operation"
    by (auto simp: List.map_filter_def)
  then have "(m, operation) \<in> set pathItem" by (rule map_of_SomeD)
  with p assms(2) show ?thesis
    unfolding refs_in_spec_def by force
qed

lemma run_reaches_in_spec:
  assumes "run_reaches sp r"
  shows "r \<in> refs_in_spec sp"
proof -
  note closed = closed_refs_in_spec [of sp]
  from assms obtain pathKey operation where
    o: "(pathKey, operation) \<in> set (operations_of sp)"
    and c: "request_reaches sp operation r \<or> response_reaches sp operation r"
    by (auto simp: run_reaches_def)
  from c show ?thesis
  proof
    assume "request_reaches sp operation r"
    then obtain rq where rq: "requestSchema operation = Some rq"
      and c: "deref_reaches sp rq {} 0 r
         \<or> (\<exists>resolved seenRefs. derefSchema sp rq {} 0 = Inr (resolved, seenRefs)
               \<and> compile_reaches sp resolved Input 0 {} r)"
      by (auto simp: request_reaches_def)
    from rq have "rq \<in> operation_schemas operation" by (simp add: operation_schemas_def)
    from operation_refs_in_spec [OF o this] have sub: "refs_of rq \<subseteq> refs_in_spec sp" .
    from c show ?thesis
    proof
      assume "deref_reaches sp rq {} 0 r"
      from deref_reaches_refs(1) [OF this closed sub] show ?thesis .
    next
      assume "\<exists>resolved seenRefs. derefSchema sp rq {} 0 = Inr (resolved, seenRefs)
               \<and> compile_reaches sp resolved Input 0 {} r"
      then obtain x y where d: "derefSchema sp rq {} 0 = Inr (x, y)"
        and cr: "compile_reaches sp x Input 0 {} r" by blast
      from deref_inv(1) [OF closed sub, of "{}" 0] d have "refs_of x \<subseteq> refs_in_spec sp"
        by (simp add: deref_ok_def)
      from compile_reaches_refs [OF cr closed this] show ?thesis .
    qed
  next
    assume "response_reaches sp operation r"
    then obtain rs where rs: "responseSchema operation = Some rs"
      and c: "deref_reaches sp rs {} 0 r \<or> compile_reaches sp rs Output 0 {} r"
      by (auto simp: response_reaches_def)
    from rs have "rs \<in> operation_schemas operation"
      by (auto simp: operation_schemas_def responseSchema_def split: option.splits)
    from operation_refs_in_spec [OF o this] have sub: "refs_of rs \<subseteq> refs_in_spec sp" .
    from c show ?thesis
    proof
      assume "deref_reaches sp rs {} 0 r"
      from deref_reaches_refs(1) [OF this closed sub] show ?thesis .
    next
      assume "compile_reaches sp rs Output 0 {} r"
      from compile_reaches_refs [OF this closed sub] show ?thesis .
    qed
  qed
qed

text \<open>
  The pointer to \<open>Missing\<close> aborts the run where it is the schema of a property of the
  request schema, its \<open>additionalProperties\<close>, its \<open>items\<close>, a branch of its \<open>allOf\<close>, a
  property of the target of its \<open>$ref\<close>, or a property of the response schema; a pointer
  that does not start with \<open>#/\<close> aborts the run as unsupported.
\<close>

lemma reached_pointers_abort:
  "main (request_spec nested_request) = Inl (Unresolvable_ref ''#/components/schemas/Missing'')
   \<and> main (request_spec (catchall_schema ref_Missing)) =
       Inl (Unresolvable_ref ''#/components/schemas/Missing'')
   \<and> main (request_spec (array_schema ref_Missing)) =
       Inl (Unresolvable_ref ''#/components/schemas/Missing'')
   \<and> main (request_spec (allOf_schema [ref_A, ref_Missing])) =
       Inl (Unresolvable_ref ''#/components/schemas/Missing'')
   \<and> main (request_spec (ref_schema ''#/components/schemas/User'')) =
       Inl (Unresolvable_ref ''#/components/schemas/Missing'')
   \<and> main (response_spec nested_request) =
       Inl (Unresolvable_ref ''#/components/schemas/Missing'')
   \<and> main (request_spec (ref_schema ''components/schemas/A'')) =
       Inl (Unsupported_ref ''components/schemas/A'')"
proof -
  have a: "main (request_spec nested_request) =
      Inl (Unresolvable_ref ''#/components/schemas/Missing'')"
    by code_simp
  have b: "main (request_spec (catchall_schema ref_Missing)) =
       Inl (Unresolvable_ref ''#/components/schemas/Missing'')"
    by code_simp
  have c: "main (request_spec (array_schema ref_Missing)) =
       Inl (Unresolvable_ref ''#/components/schemas/Missing'')"
    by code_simp
  have d: "main (request_spec (allOf_schema [ref_A, ref_Missing])) =
       Inl (Unresolvable_ref ''#/components/schemas/Missing'')"
    by code_simp
  have f: "main (request_spec (ref_schema ''#/components/schemas/User'')) =
       Inl (Unresolvable_ref ''#/components/schemas/Missing'')"
    by code_simp
  have g: "main (response_spec nested_request) =
       Inl (Unresolvable_ref ''#/components/schemas/Missing'')"
    by code_simp
  have h: "main (request_spec (ref_schema ''components/schemas/A'')) =
       Inl (Unsupported_ref ''components/schemas/A'')"
    by code_simp
  from a b c d f g h show ?thesis by (intro conjI)
qed

lemma nested_request_reached:
  "run_reaches (request_spec nested_request) ''#/components/schemas/Missing''"
proof -
  let ?sp = "request_spec nested_request"
  let ?r = "''#/components/schemas/Missing''"
  have "deref_reaches ?sp ref_Missing {} (0 + 1) ?r"
    by (rule looked_up) (simp_all add: MAX_SCHEMA_DEPTH_def ref_Missing_def ref_schema_def)
  then have c: "compile_reaches ?sp ref_Missing Input (0 + 1) {} ?r"
    by (rule in_resolution)
  have d: "derefSchema ?sp nested_request {} 0 = Inr (nested_request, {})"
    by code_simp
  have p: "properties nested_request
      = Some [(''id'', typed_schema ''string''), (''user'', ref_Missing)]"
    "oneOf nested_request = None" "anyOf nested_request = None"
    by (simp_all add: nested_request_def object_schema_def)
  have k: "(''user'', ref_Missing) \<in> set [(''id'', typed_schema ''string''), (''user'', ref_Missing)]"
    by simp
  have z: "0 \<le> MAX_SCHEMA_DEPTH" by simp
  have "compile_reaches ?sp nested_request Input 0 {} ?r"
    by (rule in_property [OF d z p(2) p(3) p(1) k c])
  with d have "request_reaches ?sp (request_operation nested_request) ?r"
    by (auto simp: request_reaches_def request_operation_def)
  moreover have "operations_of ?sp = [(''/auth.info'', request_operation nested_request)]"
    by code_simp
  ultimately show ?thesis by (simp add: run_reaches_def)
qed

text \<open>
  C5, as stated, fails: references are looked up only when resolution reaches them.
  The document below has a pointer to the missing schema \<open>Missing\<close> in an unused component
  and under the \<open>oneOf\<close> of its one request schema; the pointer cannot be looked up, and
  the run completes and writes the artifact with the one tool.
\<close>

theorem dangling_reference_not_reached:
  "''#/components/schemas/Missing'' \<in> refs_in_spec dangling_unused_spec
   \<and> resolveRef dangling_unused_spec ''#/components/schemas/Missing'' =
       Inl (Unresolvable_ref ''#/components/schemas/Missing'')
   \<and> main dangling_unused_spec =
       Inr (Artifact
         [\<lparr> name = ''outline_auth_info'', title = ''outline_auth_info'',
             tool_description = [], methodName = ''auth.info'',
             inputSchema = ZObject [(''payload'', ZAny)] Strict, outputSchema = None,
             tool_annotations =
               \<lparr> readOnlyHint = True, destructiveHint = False, idempotentHint = True,
                 openWorldHint = True \<rparr> \<rparr>])"
proof -
  have a: "''#/components/schemas/Missing'' \<in> refs_in_spec dangling_unused_spec"
    by (simp add: refs_in_spec_def dangling_unused_spec_def components_spec_def
        ref_Missing_def ref_schema_def)
  have b: "resolveRef dangling_unused_spec ''#/components/schemas/Missing'' =
       Inl (Unresolvable_ref ''#/components/schemas/Missing'')"
    by code_simp
  have c: "main dangling_unused_spec =
       Inr (Artifact
         [\<lparr> name = ''outline_auth_info'', title = ''outline_auth_info'',
             tool_description = [], methodName = ''auth.info'',
             inputSchema = ZObject [(''payload'', ZAny)] Strict, outputSchema = None,
             tool_annotations =
               \<lparr> readOnlyHint = True, destructiveHint = False, idempotentHint = True,
                 openWorldHint = True \<rparr> \<rparr>])"
    by code_simp
  from a b c show ?thesis by blast
qed

text \<open>
  In that document the run reaches no pointer at all.
\<close>

lemma oneOf_not_resolved: "\<not> deref_reaches sp (oneOf_schema bs) seenRefs depth r"
  by (auto elim: deref_reaches.cases simp: oneOf_schema_def)

lemma unused_pointer_not_reached: "\<not> run_reaches dangling_unused_spec r"
proof
  let ?sp = "dangling_unused_spec"
  let ?rq = "oneOf_schema [ref_Missing]"
  assume a: "run_reaches ?sp r"
  have ops: "operations_of ?sp = [(''/auth.info'', request_operation ?rq)]"
    by code_simp
  have d: "derefSchema ?sp ?rq {} 0 = Inr (?rq, {})"
    by code_simp
  have nr: "responseSchema (request_operation ?rq) = None"
    by (simp add: responseSchema_def request_operation_def)
  have rq: "requestSchema (request_operation ?rq) = Some ?rq"
    by (simp add: request_operation_def)
  from a ops have "request_reaches ?sp (request_operation ?rq) r
      \<or> response_reaches ?sp (request_operation ?rq) r"
    by (simp add: run_reaches_def)
  with nr have "request_reaches ?sp (request_operation ?rq) r"
    by (simp add: response_reaches_def)
  with rq d oneOf_not_resolved have "compile_reaches ?sp ?rq Input 0 {} r"
    by (auto simp: request_reaches_def)
  then show False
  proof (cases rule: compile_reaches.cases)
    case in_resolution
    with oneOf_not_resolved show False by blast
  next
    case (in_property resolved seenRefs ps key propertySchema)
    with d show False by (auto simp: oneOf_schema_def)
  next
    case (in_catchall resolved seenRefs a)
    with d show False by (auto simp: oneOf_schema_def)
  next
    case (in_items resolved seenRefs it)
    with d show False by (auto simp: oneOf_schema_def)
  qed
qed

text \<open>
  C5, amended. When a run reaches a reference pointer whose lookup fails (the request
  schema or the success response schema of an operation, the target of a reference, a
  branch of an \<open>allOf\<close>, and, where the resolved schema is compiled, a property, the
  \<open>additionalProperties\<close> schema in input mode or the \<open>items\<close> of an array), the run
  aborts: \<open>main\<close> returns an error, the error is that of the lookup of a reached pointer
  and names it, and no artifact is written. Every run that aborts does so with the
  failed lookup of a pointer that it reaches and that occurs in the document, and
  \<open>writeOutput\<close> is not reached. Every pointer that a run reaches occurs in the document.
  When every pointer that the run reaches can be looked up, the run completes and writes
  the artifact, whatever other pointers of the document dangle. For a document all of
  whose reference pointers can be looked up, no run raises the error of an unresolvable
  reference.
\<close>

theorem reference_errors_abort:
  "(run_reaches sp r \<and> resolveRef sp r = Inl e \<longrightarrow>
      (\<exists>r' e'. main sp = Inl e' \<and> run_reaches sp r' \<and> resolveRef sp r' = Inl e'
          \<and> (e' = Unsupported_ref r' \<or> e' = Unresolvable_ref r'))
      \<and> (\<forall>tools. main sp \<noteq> Inr (writeOutput tools)))
   \<and> (main sp = Inl e \<longrightarrow>
      generateTools sp = Inl e
      \<and> (\<forall>tools. main sp \<noteq> Inr (writeOutput tools))
      \<and> (\<exists>r. run_reaches sp r \<and> r \<in> refs_in_spec sp \<and> resolveRef sp r = Inl e
            \<and> (e = Unsupported_ref r \<or> e = Unresolvable_ref r)))
   \<and> (run_reaches sp r \<longrightarrow> r \<in> refs_in_spec sp)
   \<and> ((\<forall>r. run_reaches sp r \<longrightarrow> (\<exists>s. resolveRef sp r = Inr s)) \<longrightarrow>
      (\<exists>tools. main sp = Inr (writeOutput tools)))
   \<and> ((\<forall>r \<in> refs_in_spec sp. resolveRef sp r \<noteq> Inl (Unresolvable_ref r)) \<longrightarrow>
      (\<forall>r. main sp \<noteq> Inl (Unresolvable_ref r)))"
proof -
  have c1: "(\<exists>r' e'. main sp = Inl e' \<and> run_reaches sp r' \<and> resolveRef sp r' = Inl e'
          \<and> (e' = Unsupported_ref r' \<or> e' = Unresolvable_ref r'))
      \<and> (\<forall>tools. main sp \<noteq> Inr (writeOutput tools))"
    if "run_reaches sp r \<and> resolveRef sp r = Inl e"
  proof -
    from that main_reached_aborts [of sp r e] obtain e' where e': "main sp = Inl e'"
      by blast
    from main_reached_error [OF e'] e' show ?thesis by auto
  qed
  have c2: "generateTools sp = Inl e
      \<and> (\<forall>tools. main sp \<noteq> Inr (writeOutput tools))
      \<and> (\<exists>r. run_reaches sp r \<and> r \<in> refs_in_spec sp \<and> resolveRef sp r = Inl e
            \<and> (e = Unsupported_ref r \<or> e = Unresolvable_ref r))"
    if m: "main sp = Inl e"
  proof -
    from m have "generateTools sp = Inl e"
      by (simp add: main_def split: sum.splits)
    with m main_reached_error [OF m] show ?thesis by auto
  qed
  have c3: "r \<in> refs_in_spec sp" if "run_reaches sp r"
    using that by (rule run_reaches_in_spec)
  have c4: "\<exists>tools. main sp = Inr (writeOutput tools)"
    if ok: "\<forall>r. run_reaches sp r \<longrightarrow> (\<exists>s. resolveRef sp r = Inr s)"
  proof (cases "main sp")
    case (Inl e')
    from main_reached_error [OF this] ok show ?thesis by force
  next
    case (Inr a)
    then show ?thesis by (auto simp: main_def split: sum.splits)
  qed
  have c5: "\<forall>r. main sp \<noteq> Inl (Unresolvable_ref r)"
    if ok: "\<forall>r \<in> refs_in_spec sp. resolveRef sp r \<noteq> Inl (Unresolvable_ref r)"
  proof
    fix r
    show "main sp \<noteq> Inl (Unresolvable_ref r)"
    proof
      assume "main sp = Inl (Unresolvable_ref r)"
      from main_error [OF this] obtain r' where
        "r' \<in> refs_in_spec sp" "resolveRef sp r' = Inl (Unresolvable_ref r)"
        "Unresolvable_ref r = Unsupported_ref r' \<or> Unresolvable_ref r = Unresolvable_ref r'"
        by blast
      with ok show False by auto
    qed
  qed
  from c1 c2 c3 c4 c5 show ?thesis by blast
qed

theorem reference_errors_abort_witness:
  "run_reaches (request_spec nested_request) ''#/components/schemas/Missing''
   \<and> resolveRef (request_spec nested_request) ''#/components/schemas/Missing'' =
       Inl (Unresolvable_ref ''#/components/schemas/Missing'')
   \<and> main (request_spec nested_request) =
       Inl (Unresolvable_ref ''#/components/schemas/Missing'')
   \<and> generateTools (request_spec nested_request) =
       Inl (Unresolvable_ref ''#/components/schemas/Missing'')
   \<and> ''#/components/schemas/Missing'' \<in> refs_in_spec (request_spec nested_request)
   \<and> (\<exists>r' e'. main (request_spec nested_request) = Inl e'
         \<and> run_reaches (request_spec nested_request) r'
         \<and> resolveRef (request_spec nested_request) r' = Inl e')
   \<and> refs_in_spec resolved_request_spec = {''#/components/schemas/A''}
   \<and> resolveRef resolved_request_spec ''#/components/schemas/A'' = Inr part_A
   \<and> (\<exists>tools. main resolved_request_spec = Inr (writeOutput tools))
   \<and> main resolved_request_spec \<noteq> Inl (Unresolvable_ref ''#/components/schemas/A'')"
proof -
  let ?sp = "request_spec nested_request"
  let ?r = "''#/components/schemas/Missing''"
  note inst = reference_errors_abort [of ?sp ?r "Unresolvable_ref ?r"]
  have a: "run_reaches ?sp ?r"
    by (rule nested_request_reached)
  have b: "resolveRef ?sp ?r = Inl (Unresolvable_ref ?r)"
    by code_simp
  have c: "main ?sp = Inl (Unresolvable_ref ?r)"
    by code_simp
  from inst c have d: "generateTools ?sp = Inl (Unresolvable_ref ?r)"
    by blast
  from inst a have f: "?r \<in> refs_in_spec ?sp"
    by blast
  from inst a b have g: "\<exists>r' e'. main ?sp = Inl e' \<and> run_reaches ?sp r'
      \<and> resolveRef ?sp r' = Inl e'"
    by blast
  have h: "refs_in_spec resolved_request_spec = {''#/components/schemas/A''}"
    by (auto simp: refs_in_spec_def resolved_request_spec_def components_spec_def
        request_operation_def operation_schemas_def ref_A_def ref_schema_def part_A_def
        object_schema_def typed_schema_def empty_schema_def)
  have i: "resolveRef resolved_request_spec ''#/components/schemas/A'' = Inr part_A"
    by code_simp
  have "\<exists>s. resolveRef resolved_request_spec r = Inr s"
    if "run_reaches resolved_request_spec r" for r
  proof -
    from reference_errors_abort [of resolved_request_spec r] that
    have "r \<in> refs_in_spec resolved_request_spec" by blast
    with h i show ?thesis by simp
  qed
  then have "\<forall>r. run_reaches resolved_request_spec r
      \<longrightarrow> (\<exists>s. resolveRef resolved_request_spec r = Inr s)"
    by blast
  with reference_errors_abort [of resolved_request_spec]
  have j: "\<exists>tools. main resolved_request_spec = Inr (writeOutput tools)"
    by blast
  from h i have "\<forall>r \<in> refs_in_spec resolved_request_spec.
      resolveRef resolved_request_spec r \<noteq> Inl (Unresolvable_ref r)"
    by simp
  with reference_errors_abort [of resolved_request_spec]
  have k: "main resolved_request_spec \<noteq> Inl (Unresolvable_ref ''#/components/schemas/A'')"
    by blast
  from a b c d f g h i j k show ?thesis by (intro conjI)
qed

end
